theory Spec2Isabelle
  imports Complex_Main "HOL-Library.Multiset"
begin

text \<open>
  The program partitions the users of a grade into groups of given sizes. One run
  (\<^verbatim>\<open>run\<close>) places the users who listed preferences by a ranked, evicting loop and all
  remaining users by a fallback loop; \<^verbatim>\<open>runMany\<close> repeats the run and selects one result.
  This theory embeds the functions of \<^verbatim>\<open>algorithm.ts\<close> that compute the groups and the
  metrics, and proves properties of them. The reads from the database, the command
  line and the console output are outside the embedding: the resolved preferences,
  user details and anti-preferences are arguments, and so are the outcomes of
  \<^verbatim>\<open>_.shuffle\<close> and \<^verbatim>\<open>_.sample\<close>, so that every theorem holds for all of their outcomes.
\<close>


section \<open>Data model of \<^verbatim>\<open>algorithm.ts\<close>\<close>

text \<open>
  A username is a string and a group is an array of usernames. The objects
  \<^verbatim>\<open>Preferences\<close> and \<^verbatim>\<open>UserDetails\<close> are JavaScript objects used as dictionaries; they
  are association lists here, in the order \<^verbatim>\<open>Object.keys\<close> lists them, read with
  \<open>map_of\<close>. A key that is absent reads as \<^verbatim>\<open>undefined\<close> in the source, \<open>None\<close> here.
  Reading a property of \<^verbatim>\<open>undefined\<close> throws a \<^verbatim>\<open>TypeError\<close>: every function
  that can do so returns \<open>error + 'a\<close>. The properties that every object inherits
  (such as \<^verbatim>\<open>constructor\<close>) are not modelled: no username is the name of one.
\<close>

type_synonym Username = string
type_synonym Group = "Username list"
type_synonym Preferences = "(Username \<times> Username list) list"

record user_detail =
  isMale :: bool
  grade :: string
  isGoing :: "bool option"
  preferences :: "Username list option"

type_synonym UserDetails = "(Username \<times> user_detail) list"

datatype error = TypeError

section \<open>Scoring primitives\<close>

definition endsWith :: "string \<Rightarrow> string \<Rightarrow> bool" where
  "endsWith s suffix = (take (length suffix) (rev s) = rev suffix)"

definition getMultiplier :: "Username \<Rightarrow> int" where
  "getMultiplier username =
     (if endsWith username ''--x5'' then 5
      else if endsWith username ''--x4'' then 4
      else if endsWith username ''--x3'' then 3
      else if endsWith username ''--x2'' then 2
      else 1)"

definition getAllMultiplier :: "Username list \<Rightarrow> int" where
  "getAllMultiplier usernames = foldl (\<lambda>sum username. sum + getMultiplier username) 0 usernames"

text \<open>
  \<^verbatim>\<open>getUGScore\<close>: the loop over the group, with the running score as accumulator.
  \<^verbatim>\<open>preferences[member].includes(...)\<close> is evaluated once per group member, and throws
  when \<^verbatim>\<open>preferences[member]\<close> is \<^verbatim>\<open>undefined\<close>.
\<close>

fun getUGScore_loop :: "Preferences \<Rightarrow> Group \<Rightarrow> Username \<Rightarrow> int \<Rightarrow> error + int" where
  "getUGScore_loop prefs [] member score = Inr score"
| "getUGScore_loop prefs (groupMember # rest) member score =
     (case map_of prefs member of
        None \<Rightarrow> Inl TypeError
      | Some friends \<Rightarrow>
          getUGScore_loop prefs rest member
            (if groupMember \<in> set friends then score + getMultiplier groupMember else score))"

definition getUGScore :: "Preferences \<Rightarrow> Group \<Rightarrow> Username \<Rightarrow> error + int" where
  "getUGScore prefs grp member = getUGScore_loop prefs grp member 0"

text \<open>
  \<^verbatim>\<open>getGUScore\<close>: here the preference list read is the one of each group member.
\<close>

fun getGUScore_loop :: "Preferences \<Rightarrow> Group \<Rightarrow> Username \<Rightarrow> int \<Rightarrow> error + int" where
  "getGUScore_loop prefs [] member score = Inr score"
| "getGUScore_loop prefs (groupMember # rest) member score =
     (case map_of prefs groupMember of
        None \<Rightarrow> Inl TypeError
      | Some friends \<Rightarrow>
          getGUScore_loop prefs rest member
            (if member \<in> set friends
             then score + getMultiplier member * getMultiplier groupMember else score))"

definition getGUScore :: "Preferences \<Rightarrow> Group \<Rightarrow> Username \<Rightarrow> error + int" where
  "getGUScore prefs grp member = getGUScore_loop prefs grp member 0"

section \<open>Sorting with a comparator\<close>

text \<open>
  \<^verbatim>\<open>Array.prototype.sort(compare)\<close> is stable; an element \<open>a\<close> stays before \<open>b\<close> unless
  \<^verbatim>\<open>compare(a, b) > 0\<close>. For a comparator that is a total preorder every stable sorting
  algorithm returns the same array, the one computed here by insertion.
\<close>

fun insertBy :: "('a \<Rightarrow> 'a \<Rightarrow> int) \<Rightarrow> 'a \<Rightarrow> 'a list \<Rightarrow> 'a list" where
  "insertBy compare a [] = [a]"
| "insertBy compare a (b # bs) =
     (if compare a b \<le> 0 then a # b # bs else b # insertBy compare a bs)"

fun sortBy_compare :: "('a \<Rightarrow> 'a \<Rightarrow> int) \<Rightarrow> 'a list \<Rightarrow> 'a list" where
  "sortBy_compare compare [] = []"
| "sortBy_compare compare (a # as) = insertBy compare a (sortBy_compare compare as)"

section \<open>Ranking the members of a group\<close>

record gu_entry =
  gu_username :: Username
  gu_score :: int
  gu_index :: nat

text \<open>The first loop of \<^verbatim>\<open>getGURanking\<close>: one entry per position \<open>i\<close> of the group.\<close>

fun getGURanking_scores :: "Preferences \<Rightarrow> Group \<Rightarrow> Group \<Rightarrow> nat \<Rightarrow> error + gu_entry list" where
  "getGURanking_scores prefs grp [] i = Inr []"
| "getGURanking_scores prefs grp (member # rest) i =
     (case getGUScore prefs grp member of
        Inl e \<Rightarrow> Inl e
      | Inr score \<Rightarrow>
          (case getGURanking_scores prefs grp rest (Suc i) of
             Inl e \<Rightarrow> Inl e
           | Inr scores \<Rightarrow>
               Inr (\<lparr>gu_username = member, gu_score = score, gu_index = i\<rparr> # scores)))"

definition gu_compare :: "gu_entry \<Rightarrow> gu_entry \<Rightarrow> int" where
  "gu_compare a b =
     (if gu_score a = gu_score b then int (gu_index a) - int (gu_index b)
      else gu_score b - gu_score a)"

definition getGURanking :: "Preferences \<Rightarrow> Group \<Rightarrow> error + Username list" where
  "getGURanking prefs grp =
     (case getGURanking_scores prefs grp grp 0 of
        Inl e \<Rightarrow> Inl e
      | Inr scores \<Rightarrow> Inr (map gu_username (sortBy_compare gu_compare scores)))"

section \<open>JavaScript numbers\<close>

text \<open>
  The numbers of the source are IEEE doubles. The values it computes are integers and
  quotients of integers, modelled exactly as rationals, together with the three special
  values that the source can produce: both infinities and \<^verbatim>\<open>NaN\<close>. Rounding a quotient
  to a double is monotone and keeps 0 and 1 fixed, so bounds proved on the exact value
  hold for the double. A read of \<^verbatim>\<open>undefined\<close> that is converted to a number is \<open>NaN\<close>.
\<close>

datatype jsnum = Num rat | PosInf | NegInf | NaN

text \<open>The operators \<^verbatim>\<open><\<close>, \<^verbatim>\<open>>\<close>, \<^verbatim>\<open>===\<close>, \<^verbatim>\<open>-\<close> (binary and unary) and \<^verbatim>\<open>/\<close> on numbers.\<close>

fun js_lt :: "jsnum \<Rightarrow> jsnum \<Rightarrow> bool" where
  "js_lt NaN b = False"
| "js_lt a NaN = False"
| "js_lt (Num a) (Num b) = (a < b)"
| "js_lt (Num a) PosInf = True"
| "js_lt (Num a) NegInf = False"
| "js_lt PosInf b = False"
| "js_lt NegInf NegInf = False"
| "js_lt NegInf b = True"

definition js_gt :: "jsnum \<Rightarrow> jsnum \<Rightarrow> bool" where
  "js_gt a b = js_lt b a"

definition js_strict_eq :: "jsnum \<Rightarrow> jsnum \<Rightarrow> bool" where
  "js_strict_eq a b = (a = b \<and> a \<noteq> NaN)"

fun js_neg :: "jsnum \<Rightarrow> jsnum" where
  "js_neg (Num a) = Num (- a)"
| "js_neg PosInf = NegInf"
| "js_neg NegInf = PosInf"
| "js_neg NaN = NaN"

fun js_add :: "jsnum \<Rightarrow> jsnum \<Rightarrow> jsnum" where
  "js_add NaN b = NaN"
| "js_add a NaN = NaN"
| "js_add (Num a) (Num b) = Num (a + b)"
| "js_add (Num a) b = b"
| "js_add a (Num b) = a"
| "js_add PosInf PosInf = PosInf"
| "js_add NegInf NegInf = NegInf"
| "js_add PosInf NegInf = NaN"
| "js_add NegInf PosInf = NaN"

definition js_sub :: "jsnum \<Rightarrow> jsnum \<Rightarrow> jsnum" where
  "js_sub a b = js_add a (js_neg b)"

text \<open>
  The division of two finite numbers, the only one the source performs with a divisor
  that can be zero; the divisor is never negative zero there.
\<close>

definition js_div :: "rat \<Rightarrow> rat \<Rightarrow> jsnum" where
  "js_div a b =
     (if b \<noteq> 0 then Num (a / b)
      else if 0 < a then PosInf else if a < 0 then NegInf else NaN)"

section \<open>Metrics of a result\<close>

text \<open>
  \<^verbatim>\<open>getPercentFavorability\<close>. The test \<^verbatim>\<open>preferences[group[i]] && ...includes(group[j])\<close>
  is false for a member without an entry (an array is always truthy).
\<close>

definition listsAsFriend :: "Preferences \<Rightarrow> Username \<Rightarrow> Username \<Rightarrow> bool" where
  "listsAsFriend prefs a b =
     (case map_of prefs a of None \<Rightarrow> False | Some friends \<Rightarrow> b \<in> set friends)"

definition currentFriendsSum :: "Group \<Rightarrow> Preferences \<Rightarrow> int" where
  "currentFriendsSum grp prefs =
     foldl (\<lambda>sum gi.
        foldl (\<lambda>sum gj.
           if listsAsFriend prefs gi gj then sum + getMultiplier gi * getMultiplier gj else sum)
          sum grp)
       0 grp"

definition getPercentFavorability :: "Group \<Rightarrow> Preferences \<Rightarrow> jsnum" where
  "getPercentFavorability grp prefs =
     (if length grp = 0 then Num 1
      else js_div (of_int (currentFriendsSum grp prefs))
             (of_int ((getAllMultiplier grp - 1) * (getAllMultiplier grp - 1) * 2)))"

text \<open>
  \<^verbatim>\<open>getMinFriends\<close>. The state of the two nested loops is the pair of
  \<^verbatim>\<open>currentMinFriends\<close> (initially \<^verbatim>\<open>Infinity\<close>) and \<^verbatim>\<open>currentUsersWithMinFriends\<close>.
\<close>

record min_friends =
  minFriends :: jsnum
  usernames :: "Username list"

definition currentFriendsCount :: "Username list \<Rightarrow> Group \<Rightarrow> nat" where
  "currentFriendsCount friends grp = length (filter (\<lambda>member. member \<in> set friends) grp)"

definition getMinFriends_member :: "Preferences \<Rightarrow> Group \<Rightarrow> min_friends \<Rightarrow> Username \<Rightarrow> min_friends" where
  "getMinFriends_member prefs grp cur username =
     (case map_of prefs username of
        None \<Rightarrow> cur
      | Some friends \<Rightarrow>
          (let count = Num (of_nat (currentFriendsCount friends grp));
               cur1 = (if js_strict_eq count (minFriends cur)
                       then cur\<lparr>usernames := usernames cur @ [username]\<rparr> else cur)
           in if js_lt count (minFriends cur1)
              then \<lparr>minFriends = count, usernames = [username]\<rparr> else cur1))"

definition getMinFriends :: "Group list \<Rightarrow> Preferences \<Rightarrow> min_friends" where
  "getMinFriends groups prefs =
     foldl (\<lambda>cur grp. foldl (getMinFriends_member prefs grp) cur grp)
       \<lparr>minFriends = PosInf, usernames = []\<rparr> groups"

section \<open>The functions of lodash that the source calls\<close>

text \<open>
  lodash is a dependency of the repository. \<^verbatim>\<open>_.sortBy(collection, iteratees)\<close> computes the
  criteria of every element, and sorts the elements with the comparator
  \<^verbatim>\<open>compareMultiple\<close>: the first criterion on which \<^verbatim>\<open>compareAscending\<close> is not zero
  decides, and the original index decides when all criteria tie (a stable sort in
  ascending order). \<^verbatim>\<open>compareAscending\<close> places \<^verbatim>\<open>NaN\<close> after every other number.
  \<^verbatim>\<open>_.min\<close> returns \<^verbatim>\<open>undefined\<close> (\<open>None\<close>) for an array with no number other than \<^verbatim>\<open>NaN\<close>.
\<close>

definition compareAscending :: "jsnum \<Rightarrow> jsnum \<Rightarrow> int" where
  "compareAscending v other =
     (if js_strict_eq v other then 0
      else if js_gt v other \<or> v = NaN then 1
      else if js_lt v other \<or> other = NaN then - 1
      else 0)"

fun compareCriteria :: "jsnum list \<Rightarrow> jsnum list \<Rightarrow> int" where
  "compareCriteria (a # as) (b # bs) =
     (if compareAscending a b \<noteq> 0 then compareAscending a b else compareCriteria as bs)"
| "compareCriteria as bs = 0"

definition compareMultiple :: "('a \<times> jsnum list \<times> nat) \<Rightarrow> ('a \<times> jsnum list \<times> nat) \<Rightarrow> int" where
  "compareMultiple object other =
     (if compareCriteria (fst (snd object)) (fst (snd other)) \<noteq> 0
      then compareCriteria (fst (snd object)) (fst (snd other))
      else int (snd (snd object)) - int (snd (snd other)))"

definition lodash_sortBy :: "'a list \<Rightarrow> ('a \<Rightarrow> jsnum) list \<Rightarrow> 'a list" where
  "lodash_sortBy collection iteratees =
     map fst (sortBy_compare compareMultiple
       (map (\<lambda>(v, i). (v, map (\<lambda>iteratee. iteratee v) iteratees, i))
          (zip collection [0 ..< length collection])))"

fun lodash_min_loop :: "jsnum option \<Rightarrow> jsnum list \<Rightarrow> jsnum option" where
  "lodash_min_loop computed [] = computed"
| "lodash_min_loop computed (current # rest) =
     lodash_min_loop
       (if (case computed of None \<Rightarrow> current \<noteq> NaN | Some c \<Rightarrow> js_lt current c)
        then Some current else computed)
       rest"

definition lodash_min :: "jsnum list \<Rightarrow> jsnum option" where
  "lodash_min array = lodash_min_loop None array"

section \<open>Choosing the best of many runs\<close>

record run_details =
  groupSizes :: "jsnum list"
  groupAmount :: nat

record RunResult =
  result_groups :: "Group list"
  result_preferences :: Preferences
  result_users :: UserDetails
  result_details :: run_details

text \<open>The three iteratees that \<^verbatim>\<open>runMany\<close> gives to \<^verbatim>\<open>_.sortBy\<close>.\<close>

definition byMinFriends :: "RunResult \<Rightarrow> jsnum" where
  "byMinFriends result = minFriends (getMinFriends (result_groups result) (result_preferences result))"

definition byMinFriendsUsers :: "RunResult \<Rightarrow> jsnum" where
  "byMinFriendsUsers result =
     Num (of_nat (length (usernames (getMinFriends (result_groups result) (result_preferences result)))))"

definition byMinFavorability :: "RunResult \<Rightarrow> jsnum" where
  "byMinFavorability result =
     (case lodash_min (map (\<lambda>grp. getPercentFavorability grp (result_preferences result))
                         (result_groups result)) of
        None \<Rightarrow> NaN
      | Some m \<Rightarrow> js_neg m)"

text \<open>
  \<^verbatim>\<open>bestResult\<close> is element 0 of the sorted array. For an empty array it is \<^verbatim>\<open>undefined\<close>,
  and the read of \<^verbatim>\<open>bestResult.groups\<close> throws.
\<close>

definition bestResult :: "RunResult list \<Rightarrow> error + RunResult" where
  "bestResult results =
     (case lodash_sortBy results [byMinFriends, byMinFriendsUsers, byMinFavorability] of
        [] \<Rightarrow> Inl TypeError
      | best # rest \<Rightarrow> Inr best)"

text \<open>
  Two results for the same population of seven users, of whom \<^verbatim>\<open>a\<close>, \<^verbatim>\<open>b\<close>, \<^verbatim>\<open>c\<close> and \<^verbatim>\<open>d\<close>
  listed preferences, with the schedule \<^verbatim>\<open>4-3\<close>. In \<open>trialLow\<close> the worst-served of
  them has two friends in the group, in \<open>trialHigh\<close> three; in both, four users are at
  the minimum.
\<close>

definition trialPreferences :: Preferences where
  "trialPreferences =
     [(''a'', [''b'', ''c'', ''d'']), (''b'', [''a'', ''c'', ''d'']),
      (''c'', [''a'', ''b'', ''d'']), (''d'', [''a'', ''b'', ''c'', ''e'', ''f''])]"

definition trialUsers :: UserDetails where
  "trialUsers =
     map (\<lambda>u. (u, \<lparr>isMale = True, grade = ''9'', isGoing = None,
                     preferences = map_of trialPreferences u\<rparr>))
       [''a'', ''b'', ''c'', ''d'', ''e'', ''f'', ''g'']"

definition trialLow :: RunResult where
  "trialLow =
     \<lparr>result_groups = [[''d'', ''e'', ''f'', ''g''], [''a'', ''b'', ''c'']],
      result_preferences = trialPreferences, result_users = trialUsers,
      result_details = \<lparr>groupSizes = [Num 4, Num 3], groupAmount = 2\<rparr>\<rparr>"

definition trialHigh :: RunResult where
  "trialHigh =
     \<lparr>result_groups = [[''a'', ''b'', ''c'', ''d''], [''e'', ''f'', ''g'']],
      result_preferences = trialPreferences, result_users = trialUsers,
      result_details = \<lparr>groupSizes = [Num 4, Num 3], groupAmount = 2\<rparr>\<rparr>"

section \<open>The group-size schedule\<close>

text \<open>
  The schedule is the one string whose characters the program inspects one by one
  (\<^verbatim>\<open>split\<close> and \<^verbatim>\<open>parseInt\<close>), so it is modelled as the language has it: the list of its
  UTF-16 code units, each an integer from 0 to 65535. \<open>codeUnits\<close> gives the code units of a string
  of ASCII characters, for writing a schedule as a literal.
\<close>

type_synonym CodeUnit = int

definition codeUnits :: "string \<Rightarrow> CodeUnit list" where
  "codeUnits s = map of_char s"

text \<open>
  \<^verbatim>\<open>String.prototype.split('-')\<close>: the pieces between the separators; the empty string has
  the one piece \<^verbatim>\<open>""\<close>.
\<close>

fun split_from :: "CodeUnit \<Rightarrow> CodeUnit list \<Rightarrow> CodeUnit list \<Rightarrow> CodeUnit list list" where
  "split_from separator piece [] = [piece]"
| "split_from separator piece (c # cs) =
     (if c = separator then piece # split_from separator [] cs
      else split_from separator (piece @ [c]) cs)"

definition split :: "CodeUnit \<Rightarrow> CodeUnit list \<Rightarrow> CodeUnit list list" where
  "split separator s = split_from separator [] s"

text \<open>
  \<^verbatim>\<open>parseInt(string)\<close> with no radix: leading white space is dropped, then an optional
  sign, then an optional prefix \<^verbatim>\<open>0x\<close> or \<^verbatim>\<open>0X\<close> (which makes the radix 16), and the
  longest run of digits of the radix is read. With no digit the result is \<^verbatim>\<open>NaN\<close>;
  whatever follows the digits is ignored. No exception is thrown. The value of the
  digits is exact (a double rounds it beyond 2^53).

  The white space that \<^verbatim>\<open>parseInt\<close> drops is the language's \<^verbatim>\<open>WhiteSpace\<close> and
  \<^verbatim>\<open>LineTerminator\<close>: tab U+0009, line feed U+000A, vertical tab U+000B, form feed
  U+000C, carriage return U+000D, space U+0020, no-break space U+00A0, U+1680, U+2000
  to U+200A, line separator U+2028, paragraph separator U+2029, U+202F, U+205F, U+3000
  and the byte order mark U+FEFF. Each of them is one code unit.
\<close>

definition isWhiteSpace :: "CodeUnit \<Rightarrow> bool" where
  "isWhiteSpace c =
     (c \<in> set [0x0009, 0x000A, 0x000B, 0x000C, 0x000D, 0x0020, 0x00A0, 0x1680,
                0x2028, 0x2029, 0x202F, 0x205F, 0x3000, 0xFEFF] \<or>
      (0x2000 \<le> c \<and> c \<le> 0x200A))"

text \<open>The value of a digit: \<^verbatim>\<open>0\<close> to \<^verbatim>\<open>9\<close>, \<^verbatim>\<open>a\<close> to \<^verbatim>\<open>z\<close>, \<^verbatim>\<open>A\<close> to \<^verbatim>\<open>Z\<close>; 36 for any other code unit.\<close>

definition digitOf :: "CodeUnit \<Rightarrow> nat" where
  "digitOf c =
     (if 48 \<le> c \<and> c \<le> 57 then nat (c - 48)
      else if 97 \<le> c \<and> c \<le> 122 then nat (c - 87)
      else if 65 \<le> c \<and> c \<le> 90 then nat (c - 55)
      else 36)"

definition digitsValue :: "nat \<Rightarrow> CodeUnit list \<Rightarrow> nat" where
  "digitsValue radix digits = foldl (\<lambda>acc c. acc * radix + digitOf c) 0 digits"

definition stripSign :: "CodeUnit list \<Rightarrow> int \<times> CodeUnit list" where
  "stripSign s =
     (case s of
        [] \<Rightarrow> (1, s)
      | c # rest \<Rightarrow>
          if c = of_char CHR ''-'' then (- 1, rest)
          else if c = of_char CHR ''+'' then (1, rest)
          else (1, s))"

definition stripPrefix :: "CodeUnit list \<Rightarrow> nat \<times> CodeUnit list" where
  "stripPrefix s =
     (case s of
        c # d # rest \<Rightarrow>
          if c = of_char CHR ''0'' \<and> (d = of_char CHR ''x'' \<or> d = of_char CHR ''X'')
          then (16, rest) else (10, s)
      | _ \<Rightarrow> (10, s))"

definition parseInt :: "CodeUnit list \<Rightarrow> jsnum" where
  "parseInt input =
     (let (sign, s) = stripSign (dropWhile isWhiteSpace input);
          (radix, s) = stripPrefix s;
          digits = takeWhile (\<lambda>c. digitOf c < radix) s
      in if digits = [] then NaN else Num (of_int (sign * int (digitsValue radix digits))))"

text \<open>
  The comparator \<^verbatim>\<open>(a, b) => b - a\<close> of \<^verbatim>\<open>getGroupSizes\<close>. \<^verbatim>\<open>sort\<close> reads a comparator result
  of \<^verbatim>\<open>NaN\<close> as zero. With a \<^verbatim>\<open>NaN\<close> in the array the comparator is no order and the
  language leaves the resulting permutation to the engine; the statements below about
  such arrays do not depend on the permutation.
\<close>

fun comparatorResult :: "jsnum \<Rightarrow> int" where
  "comparatorResult (Num d) = (if d < 0 then - 1 else if 0 < d then 1 else 0)"
| "comparatorResult PosInf = 1"
| "comparatorResult NegInf = - 1"
| "comparatorResult NaN = 0"

definition descending :: "jsnum \<Rightarrow> jsnum \<Rightarrow> int" where
  "descending a b = comparatorResult (js_sub b a)"

definition getGroupSizes :: "CodeUnit list \<Rightarrow> jsnum list" where
  "getGroupSizes argument =
     sortBy_compare descending (map parseInt (split (of_char CHR ''-'') argument))"

section \<open>Constraint checks\<close>

text \<open>
  \<^verbatim>\<open>hasMaximum\<close>. The loop adds the weights of the group; \<^verbatim>\<open>users[group[i]].isMale\<close> throws
  for a member with no detail record. The two limits are numbers that can be
  \<^verbatim>\<open>Infinity\<close> or \<^verbatim>\<open>NaN\<close>, and a comparison with \<^verbatim>\<open>NaN\<close> is false.
\<close>

fun hasMaximum_loop :: "Group \<Rightarrow> bool \<Rightarrow> UserDetails \<Rightarrow> int \<times> int \<Rightarrow> error + int \<times> int" where
  "hasMaximum_loop [] male users (currentAmountSame, currentAmount) =
     Inr (currentAmountSame, currentAmount)"
| "hasMaximum_loop (member # rest) male users (currentAmountSame, currentAmount) =
     (case map_of users member of
        None \<Rightarrow> Inl TypeError
      | Some detail \<Rightarrow>
          hasMaximum_loop rest male users
            (if isMale detail = male then currentAmountSame + getMultiplier member
             else currentAmountSame,
             currentAmount + getMultiplier member))"

definition hasMaximum :: "Group \<Rightarrow> bool \<Rightarrow> jsnum \<Rightarrow> jsnum \<Rightarrow> bool \<Rightarrow> UserDetails \<Rightarrow> error + bool" where
  "hasMaximum grp male maxAmount maxAmountSame oneGender users =
     (case hasMaximum_loop grp male users (0, 0) of
        Inl e \<Rightarrow> Inl e
      | Inr (currentAmountSame, currentAmount) \<Rightarrow>
          Inr (if oneGender then js_gt (Num (of_int currentAmount)) maxAmount
               else js_gt (Num (of_int currentAmountSame)) maxAmountSame \<or>
                    js_gt (Num (of_int currentAmount)) maxAmount))"

text \<open>\<^verbatim>\<open>canTryJoiningGroup\<close>: the two joined strings are looked up in the anti-preferences.\<close>

fun canTryJoiningGroup :: "string list \<Rightarrow> Group \<Rightarrow> Username \<Rightarrow> bool" where
  "canTryJoiningGroup antiPreferences [] username = True"
| "canTryJoiningGroup antiPreferences (member # rest) username =
     (if member @ ''__'' @ username \<in> set antiPreferences then False
      else if username @ ''__'' @ member \<in> set antiPreferences then False
      else canTryJoiningGroup antiPreferences rest username)"

definition groupWithNew :: "Group \<Rightarrow> Username \<Rightarrow> Group" where
  "groupWithNew grp member = grp @ [member]"

text \<open>
  \<^verbatim>\<open>Math.floor(size / 2)\<close>, and the read \<^verbatim>\<open>groupSizes[j]\<close>, which is \<^verbatim>\<open>undefined\<close> beyond the
  end of the array; \<^verbatim>\<open>undefined\<close> divided by 2, and \<^verbatim>\<open>undefined\<close> in a comparison, is \<^verbatim>\<open>NaN\<close>.
\<close>

fun floorHalf :: "jsnum \<Rightarrow> jsnum" where
  "floorHalf (Num amount) = Num (of_int \<lfloor>amount / 2\<rfloor>)"
| "floorHalf other = other"

definition sizeAt :: "jsnum list \<Rightarrow> nat \<Rightarrow> jsnum" where
  "sizeAt sizes j = (if j < length sizes then sizes ! j else NaN)"

section \<open>Ranking the groups for a user\<close>

text \<open>
  \<^verbatim>\<open>getUGRanking\<close>. For two groups with the same score and the same length the comparator
  returns \<^verbatim>\<open>_.sample([-1, 1])\<close>, a coin. The coin is a parameter: \<open>coin a b\<close> tells whether
  the comparison of the groups \<open>a\<close> and \<open>b\<close> returned -1. The sort compares a pair of
  groups at most once, so every sequence of outcomes is some coin, and the rankings
  over all coins are the arrays sorted by score and length with the ties in any order.
\<close>

record ug_entry =
  ug_groupID :: nat
  ug_score :: int

fun getUGRanking_scores :: "Preferences \<Rightarrow> Group list \<Rightarrow> Username \<Rightarrow> nat \<Rightarrow> error + ug_entry list" where
  "getUGRanking_scores prefs [] newMember i = Inr []"
| "getUGRanking_scores prefs (grp # rest) newMember i =
     (case getUGScore prefs grp newMember of
        Inl e \<Rightarrow> Inl e
      | Inr score \<Rightarrow>
          (case getUGRanking_scores prefs rest newMember (Suc i) of
             Inl e \<Rightarrow> Inl e
           | Inr scores \<Rightarrow> Inr (\<lparr>ug_groupID = i, ug_score = score\<rparr> # scores)))"

definition ug_compare :: "(nat \<Rightarrow> nat \<Rightarrow> bool) \<Rightarrow> Group list \<Rightarrow> ug_entry \<Rightarrow> ug_entry \<Rightarrow> int" where
  "ug_compare coin gs a b =
     (if ug_score a = ug_score b
      then (let lengthDifference =
                  int (length (gs ! ug_groupID b)) - int (length (gs ! ug_groupID a))
            in if lengthDifference = 0
               then (if coin (ug_groupID a) (ug_groupID b) then - 1 else 1)
               else lengthDifference)
      else ug_score b - ug_score a)"

definition getUGRanking :: "(nat \<Rightarrow> nat \<Rightarrow> bool) \<Rightarrow> Preferences \<Rightarrow> Group list \<Rightarrow> Username \<Rightarrow> error + nat list" where
  "getUGRanking coin prefs gs newMember =
     (case getUGRanking_scores prefs gs newMember 0 of
        Inl e \<Rightarrow> Inl e
      | Inr scores \<Rightarrow> Inr (map ug_groupID (sortBy_compare (ug_compare coin gs) scores)))"

section \<open>One run of the algorithm\<close>

text \<open>
  What \<^verbatim>\<open>run\<close> reads and does not change: the three resolved inputs, the parsed schedule,
  the global \<^verbatim>\<open>oneGenderGroups\<close>, and the two sources of randomness, namely the order
  that \<^verbatim>\<open>_.shuffle\<close> returned and the coin of each call of \<^verbatim>\<open>getUGRanking\<close> (the call is
  identified by the pass and the position in the order at which it is made).
\<close>

record env =
  env_preferences :: Preferences
  env_users :: UserDetails
  env_antiPreferences :: "string list"
  env_groupSizes :: "jsnum list"
  env_oneGenderGroups :: bool
  env_userOrder :: "Username list"
  env_sample :: "nat \<Rightarrow> nat \<Rightarrow> nat \<Rightarrow> nat \<Rightarrow> bool"

text \<open>What the first loop changes, apart from its counters.\<close>

record phase_state =
  st_groups :: "Group list"
  st_placedUsers :: "Username list"
  st_hasUpdatedThisLoop :: bool

definition MOVE_ON_COUNT :: nat where
  "MOVE_ON_COUNT = 100"

subsection \<open>Eviction\<close>

text \<open>
  The loop \<^verbatim>\<open>for (k = guRanked.length - 1; k >= 0; k--)\<close>. The numeric argument is \<open>k + 1\<close>,
  so that 0 stands for the end of the loop. The loop is left in one of three ways: by
  \<^verbatim>\<open>continue ugRankLoop\<close>, by \<^verbatim>\<open>break ugRankLoop\<close>, or at its end.
\<close>

datatype eviction = ContinueRankLoop | BreakRankLoop | LoopEnded

fun evictLoop :: "UserDetails \<Rightarrow> bool \<Rightarrow> Username \<Rightarrow> nat \<Rightarrow> Group \<Rightarrow> Username list \<Rightarrow> int \<Rightarrow>
    error + Group \<times> Username list \<times> eviction" where
  "evictLoop users male username 0 guRanked placed currentRemovedUsers =
     Inr (guRanked, placed, LoopEnded)"
| "evictLoop users male username (Suc k) guRanked placed currentRemovedUsers =
     (if length guRanked \<le> k then Inl TypeError
      else
        (case map_of users (guRanked ! k) of
           None \<Rightarrow> Inl TypeError
         | Some detail \<Rightarrow>
             if isMale detail = male
             then (let removedUser = guRanked ! k;
                       spliced = take k guRanked @ drop (Suc k) guRanked;
                       removed = currentRemovedUsers + getMultiplier removedUser;
                       stillPlaced = filter (\<lambda>placedUser. placedUser \<noteq> removedUser) placed
                   in if getMultiplier username \<le> removed
                      then Inr (spliced, stillPlaced,
                                if username = removedUser then ContinueRankLoop else BreakRankLoop)
                      else evictLoop users male username k spliced stillPlaced removed)
             else evictLoop users male username k guRanked placed currentRemovedUsers))"

subsection \<open>The walk over the ranked groups\<close>

text \<open>
  The loop labelled \<^verbatim>\<open>ugRankLoop\<close>, over the group indices that are still to be tried.
\<close>

fun ugRankLoop :: "env \<Rightarrow> Username \<Rightarrow> nat list \<Rightarrow> phase_state \<Rightarrow> error + phase_state" where
  "ugRankLoop env username [] st = Inr st"
| "ugRankLoop env username (groupID # rest) st =
     (if \<not> canTryJoiningGroup (env_antiPreferences env) (st_groups st ! groupID) username
      then ugRankLoop env username rest st
      else
        (case getGURanking (env_preferences env) (groupWithNew (st_groups st ! groupID) username) of
           Inl e \<Rightarrow> Inl e
         | Inr guRanked \<Rightarrow>
             (case map_of (env_users env) username of
                None \<Rightarrow> Inl TypeError
              | Some user \<Rightarrow>
                  (case hasMaximum guRanked (isMale user) (sizeAt (env_groupSizes env) groupID)
                          (floorHalf (sizeAt (env_groupSizes env) groupID))
                          (env_oneGenderGroups env) (env_users env) of
                     Inl e \<Rightarrow> Inl e
                   | Inr False \<Rightarrow>
                       Inr (st\<lparr>st_groups := (st_groups st)[groupID := guRanked],
                               st_placedUsers := st_placedUsers st @ [username],
                               st_hasUpdatedThisLoop := True\<rparr>)
                   | Inr True \<Rightarrow>
                       (case evictLoop (env_users env) (isMale user) username (length guRanked)
                               guRanked (st_placedUsers st @ [username]) 0 of
                          Inl e \<Rightarrow> Inl e
                        | Inr (evicted, placed, ContinueRankLoop) \<Rightarrow>
                            ugRankLoop env username rest
                              (st\<lparr>st_groups := (st_groups st)[groupID := evicted],
                                  st_placedUsers := placed\<rparr>)
                        | Inr (evicted, placed, left) \<Rightarrow>
                            Inr (st\<lparr>st_groups := (st_groups st)[groupID := evicted],
                                    st_placedUsers := placed,
                                    st_hasUpdatedThisLoop := True\<rparr>))))))"

subsection \<open>The loop over the shuffled order\<close>

text \<open>
  One iteration of the loop \<^verbatim>\<open>for (i = 0; i < userOrder.length; i++)\<close>, from the counters
  \<open>i\<close> and \<^verbatim>\<open>currentLoopAmounts\<close> and the state to the counters and the state at the next
  test of the loop condition. The restart assigns \<^verbatim>\<open>i = -1\<close>, which the increment of the
  loop makes 0. An identity that is already placed takes the \<^verbatim>\<open>continue\<close> at the top of
  the body, which skips the restart test.
\<close>

definition phaseA_step :: "env \<Rightarrow> nat \<times> nat \<times> phase_state \<Rightarrow> error + nat \<times> nat \<times> phase_state" where
  "phaseA_step env = (\<lambda>(i, currentLoopAmounts, st).
     (let username = env_userOrder env ! i in
      if username \<in> set (st_placedUsers st) then Inr (i + 1, currentLoopAmounts, st)
      else
        (case getUGRanking (env_sample env currentLoopAmounts i) (env_preferences env)
                (st_groups st) username of
           Inl e \<Rightarrow> Inl e
         | Inr ugRanked \<Rightarrow>
             (case ugRankLoop env username ugRanked st of
                Inl e \<Rightarrow> Inl e
              | Inr st' \<Rightarrow>
                  if i + 1 = length (env_userOrder env) \<and>
                     length (st_placedUsers st') < length (env_userOrder env) \<and>
                     st_hasUpdatedThisLoop st' \<and> currentLoopAmounts < MOVE_ON_COUNT
                  then Inr (0, currentLoopAmounts + 1, st'\<lparr>st_hasUpdatedThisLoop := False\<rparr>)
                  else Inr (i + 1, currentLoopAmounts, st')))))"

function phaseA_loop :: "env \<Rightarrow> nat \<times> nat \<times> phase_state \<Rightarrow> error + nat \<times> nat \<times> phase_state" where
  "phaseA_loop env (i, currentLoopAmounts, st) =
     (if i < length (env_userOrder env)
      then (case phaseA_step env (i, currentLoopAmounts, st) of
              Inl e \<Rightarrow> Inl e
            | Inr next \<Rightarrow> phaseA_loop env next)
      else Inr (i, currentLoopAmounts, st))"
  by pat_completeness auto
termination
  by (relation "measures [\<lambda>(env, i, currentLoopAmounts, st). MOVE_ON_COUNT - currentLoopAmounts,
                           \<lambda>(env, i, currentLoopAmounts, st). length (env_userOrder env) - i]")
     (auto simp: phaseA_step_def Let_def MOVE_ON_COUNT_def split: if_splits sum.splits)

text \<open>
  The same loop with a bound on the number of iterations: \<open>None\<close> when the bound is
  reached before the loop condition fails.
\<close>

fun phaseA_within :: "nat \<Rightarrow> env \<Rightarrow> nat \<times> nat \<times> phase_state \<Rightarrow> (error + nat \<times> nat \<times> phase_state) option" where
  "phaseA_within n env (i, currentLoopAmounts, st) =
     (if i < length (env_userOrder env)
      then (case n of
              0 \<Rightarrow> None
            | Suc m \<Rightarrow>
                (case phaseA_step env (i, currentLoopAmounts, st) of
                   Inl e \<Rightarrow> Some (Inl e)
                 | Inr next \<Rightarrow> phaseA_within m env next))
      else Some (Inr (i, currentLoopAmounts, st)))"

text \<open>
  The state in which \<^verbatim>\<open>run\<close> enters the first loop: one empty group for each size of the
  schedule, nobody placed, the flag \<^verbatim>\<open>hasUpdatedThisLoop\<close> down.
\<close>

definition startState :: "env \<Rightarrow> phase_state" where
  "startState env =
     \<lparr>st_groups = replicate (length (env_groupSizes env)) [], st_placedUsers = [],
      st_hasUpdatedThisLoop = False\<rparr>"

text \<open>
  The iteration at position \<open>i\<close> placed its identity: the identity was not in
  \<^verbatim>\<open>placedUsers\<close> before the iteration and is in it after.
\<close>

definition placedNow :: "env \<Rightarrow> nat \<Rightarrow> phase_state \<Rightarrow> phase_state \<Rightarrow> bool" where
  "placedNow env i st st' =
     (env_userOrder env ! i \<notin> set (st_placedUsers st) \<and>
      env_userOrder env ! i \<in> set (st_placedUsers st'))"

text \<open>
  The counters and states that the first loop of a run goes through, iteration by
  iteration from the start state. \<open>visits env placedInPass s\<close>: the loop comes to the test
  of its condition with the counters and the state \<open>s\<close>, and \<open>placedInPass\<close> tells whether
  an iteration of the pass that is running has placed its identity. A restart begins a
  new pass, in which no iteration has been made yet.
\<close>

inductive visits :: "env \<Rightarrow> bool \<Rightarrow> nat \<times> nat \<times> phase_state \<Rightarrow> bool" for env where
  start: "visits env False (0, 0, startState env)"
| same_pass:
    "visits env placedInPass (i, currentLoopAmounts, st) \<Longrightarrow> i < length (env_userOrder env) \<Longrightarrow>
     phaseA_step env (i, currentLoopAmounts, st) = Inr (i + 1, loops', st') \<Longrightarrow>
     visits env (placedInPass \<or> placedNow env i st st') (i + 1, loops', st')"
| restart:
    "visits env placedInPass (i, currentLoopAmounts, st) \<Longrightarrow> i < length (env_userOrder env) \<Longrightarrow>
     phaseA_step env (i, currentLoopAmounts, st) = Inr (0, loops', st') \<Longrightarrow>
     visits env False (0, loops', st')"

text \<open>
  A bound on the number of iterations that the loop still makes: the iterations of the
  pass that is running, and those of the passes that can still be started.
\<close>

definition iterationsLeft :: "env \<Rightarrow> nat \<times> nat \<times> phase_state \<Rightarrow> nat" where
  "iterationsLeft env = (\<lambda>(i, currentLoopAmounts, st).
     (MOVE_ON_COUNT - currentLoopAmounts) * length (env_userOrder env) +
     (length (env_userOrder env) - i))"

text \<open>
  The property that the first loop keeps: no identity is twice in the groups, and every
  identity in a group is in \<^verbatim>\<open>placedUsers\<close>. \<open>otherGroups gs g\<close> are the members of all groups
  but group \<open>g\<close>.
\<close>

definition otherGroups :: "Group list \<Rightarrow> nat \<Rightarrow> Username list" where
  "otherGroups gs g = concat (take g gs) @ concat (drop (Suc g) gs)"

definition placement_ok :: "Group list \<Rightarrow> Username list \<Rightarrow> bool" where
  "placement_ok gs placed = (distinct (concat gs) \<and> set (concat gs) \<subseteq> set placed)"

text \<open>The identities that have both a preference entry and a detail record.\<close>

definition knownUsers :: "env \<Rightarrow> Username set" where
  "knownUsers env = dom (map_of (env_preferences env)) \<inter> dom (map_of (env_users env))"

subsection \<open>The second loop: every user that is not placed\<close>

text \<open>
  The second iteratee of the \<^verbatim>\<open>_.sortBy\<close> call receives an element of
  \<^verbatim>\<open>_.zip(groups, groupSizes)\<close>, the two-element array of a group and its size, and
  passes it to \<^verbatim>\<open>getUGScore\<close> as the group (the array \<^verbatim>\<open>groups\<close> has the type \<^verbatim>\<open>any[]\<close>, so the
  call type-checks). The body of \<^verbatim>\<open>getUGScore\<close> therefore runs on an array whose
  elements are not strings. \<^verbatim>\<open>includes\<close> compares with strict equality, so an array or
  a number is never included in a list of usernames.
\<close>

datatype jsval = JString string | JArray "string list" | JNumber jsnum

fun getUGScore_any_loop :: "Preferences \<Rightarrow> jsval list \<Rightarrow> Username \<Rightarrow> int \<Rightarrow> error + int" where
  "getUGScore_any_loop prefs [] member score = Inr score"
| "getUGScore_any_loop prefs (groupMember # rest) member score =
     (case map_of prefs member of
        None \<Rightarrow> Inl TypeError
      | Some friends \<Rightarrow>
          (case groupMember of
             JString name \<Rightarrow>
               getUGScore_any_loop prefs rest member
                 (if name \<in> set friends then score + getMultiplier name else score)
           | other \<Rightarrow> getUGScore_any_loop prefs rest member score))"

definition getUGScore_any :: "Preferences \<Rightarrow> jsval list \<Rightarrow> Username \<Rightarrow> error + int" where
  "getUGScore_any prefs elements member = getUGScore_any_loop prefs elements member 0"

text \<open>
  The two iteratees, for the element of the zipped array at index \<open>g\<close>. The sorted array
  is kept as the list of these indices: element \<open>g\<close> of the zipped array holds the very
  array \<^verbatim>\<open>groups[g]\<close>, and the later \<^verbatim>\<open>push\<close> changes that group.
\<close>

definition remainingSpots :: "env \<Rightarrow> Group list \<Rightarrow> nat \<Rightarrow> jsnum" where
  "remainingSpots env gs g =
     js_sub (Num (of_int (getAllMultiplier (gs ! g)))) (sizeAt (env_groupSizes env) g)"

definition friendsInGroup :: "env \<Rightarrow> Group list \<Rightarrow> Username \<Rightarrow> nat \<Rightarrow> error + jsnum" where
  "friendsInGroup env gs username g =
     (case map_of (env_preferences env) username of
        None \<Rightarrow> Inr (Num 0)
      | Some friends \<Rightarrow>
          (case getUGScore_any (env_preferences env)
                  [JArray (gs ! g), JNumber (sizeAt (env_groupSizes env) g)] username of
             Inl e \<Rightarrow> Inl e
           | Inr score \<Rightarrow> Inr (Num (of_int score))))"

fun collect :: "(error + 'a) list \<Rightarrow> error + 'a list" where
  "collect [] = Inr []"
| "collect (r # rs) =
     (case r of
        Inl e \<Rightarrow> Inl e
      | Inr v \<Rightarrow> (case collect rs of Inl e \<Rightarrow> Inl e | Inr vs \<Rightarrow> Inr (v # vs)))"

definition sizeSortedGroups :: "env \<Rightarrow> Group list \<Rightarrow> Username \<Rightarrow> error + nat list" where
  "sizeSortedGroups env gs username =
     (case collect (map (friendsInGroup env gs username) [0 ..< length gs]) of
        Inl e \<Rightarrow> Inl e
      | Inr scores \<Rightarrow>
          Inr (lodash_sortBy [0 ..< length gs] [remainingSpots env gs, \<lambda>g. scores ! g]))"

text \<open>
  The loop \<^verbatim>\<open>for (j = 0; j < sizeSortedGroups.length * 3; j++)\<close>, over the values of \<open>j\<close>
  that are still to come. The result is the \<open>j\<close> at which the user is pushed, if any.
\<close>

fun fallbackScan :: "env \<Rightarrow> Group list \<Rightarrow> nat list \<Rightarrow> Username \<Rightarrow> nat list \<Rightarrow> error + nat option" where
  "fallbackScan env gs sortedIDs username [] = Inr None"
| "fallbackScan env gs sortedIDs username (j # js) =
     (let effectiveGenderSize =
            (if j < length sortedIDs then floorHalf (sizeAt (env_groupSizes env) j) else PosInf);
          effectiveGroupSize =
            (if j < length sortedIDs * 2 then sizeAt (env_groupSizes env) j else PosInf);
          candidate = gs ! (sortedIDs ! (j mod length sortedIDs))
      in if \<not> canTryJoiningGroup (env_antiPreferences env) candidate username
         then fallbackScan env gs sortedIDs username js
         else
           (case map_of (env_users env) username of
              None \<Rightarrow> Inl TypeError
            | Some user \<Rightarrow>
                (case hasMaximum candidate (isMale user) effectiveGroupSize effectiveGenderSize
                        (env_oneGenderGroups env) (env_users env) of
                   Inl e \<Rightarrow> Inl e
                 | Inr True \<Rightarrow> fallbackScan env gs sortedIDs username js
                 | Inr False \<Rightarrow> Inr (Some j))))"

definition placeUnplaced :: "env \<Rightarrow> Username list \<Rightarrow> Group list \<Rightarrow> Username \<Rightarrow> error + Group list" where
  "placeUnplaced env placed gs username =
     (if username \<in> set placed then Inr gs
      else
        (case sizeSortedGroups env gs username of
           Inl e \<Rightarrow> Inl e
         | Inr sortedIDs \<Rightarrow>
             (case fallbackScan env gs sortedIDs username [0 ..< length sortedIDs * 3] of
                Inl e \<Rightarrow> Inl e
              | Inr None \<Rightarrow> Inr gs
              | Inr (Some j) \<Rightarrow>
                  (let g = sortedIDs ! (j mod length sortedIDs)
                   in Inr (gs[g := gs ! g @ [username]])))))"

fun allUsernamesLoop :: "env \<Rightarrow> Username list \<Rightarrow> Group list \<Rightarrow> Username list \<Rightarrow> error + Group list" where
  "allUsernamesLoop env placed gs [] = Inr gs"
| "allUsernamesLoop env placed gs (username # rest) =
     (case placeUnplaced env placed gs username of
        Inl e \<Rightarrow> Inl e
      | Inr gs' \<Rightarrow> allUsernamesLoop env placed gs' rest)"

subsection \<open>The whole run\<close>

text \<open>
  \<^verbatim>\<open>run\<close>: the groups start out empty, one per size of the schedule; the first loop runs
  over the shuffled usernames of the preferences, the second over \<^verbatim>\<open>Object.keys(users)\<close>.
  The progress bar is not modelled.
\<close>

definition run :: "env \<Rightarrow> error + RunResult" where
  "run env =
     (case phaseA_loop env
             (0, 0, \<lparr>st_groups = replicate (length (env_groupSizes env)) [],
                     st_placedUsers = [], st_hasUpdatedThisLoop = False\<rparr>) of
        Inl e \<Rightarrow> Inl e
      | Inr (i, currentLoopAmounts, st) \<Rightarrow>
          (case allUsernamesLoop env (st_placedUsers st) (st_groups st)
                  (map fst (env_users env)) of
             Inl e \<Rightarrow> Inl e
           | Inr gs \<Rightarrow>
               Inr \<lparr>result_groups = gs, result_preferences = env_preferences env,
                    result_users = env_users env,
                    result_details = \<lparr>groupSizes = env_groupSizes env,
                                       groupAmount = length (env_groupSizes env)\<rparr>\<rparr>))"

text \<open>
  The environment of a run from the inputs of the program: the schedule is parsed from
  the command-line argument.
\<close>

definition makeEnv :: "Preferences \<Rightarrow> UserDetails \<Rightarrow> string list \<Rightarrow> CodeUnit list \<Rightarrow> bool \<Rightarrow>
    Username list \<Rightarrow>
    (nat \<Rightarrow> nat \<Rightarrow> nat \<Rightarrow> nat \<Rightarrow> bool) \<Rightarrow> env" where
  "makeEnv prefs users antiPreferences groupSizesArgument oneGender shuffled sample =
     \<lparr>env_preferences = prefs, env_users = users, env_antiPreferences = antiPreferences,
      env_groupSizes = getGroupSizes groupSizesArgument, env_oneGenderGroups = oneGender,
      env_userOrder = shuffled, env_sample = sample\<rparr>"

section \<open>Small populations for the examples\<close>

definition girl :: user_detail where
  "girl = \<lparr>isMale = False, grade = ''9'', isGoing = None, preferences = None\<rparr>"

definition boy :: user_detail where
  "boy = \<lparr>isMale = True, grade = ''9'', isGoing = None, preferences = None\<rparr>"

definition heads :: "nat \<Rightarrow> nat \<Rightarrow> nat \<Rightarrow> nat \<Rightarrow> bool" where
  "heads pass i a b = True"

text \<open>
  Two girls without preferences and a boy \<^verbatim>\<open>c\<close> who lists \<^verbatim>\<open>f\<close>, for two groups of size 1.
\<close>

definition friendEnv :: env where
  "friendEnv =
     makeEnv [(''c'', [''f''])]
       [(''x'', girl), (''f'', girl),
        (''c'', boy\<lparr>preferences := Some [''f'']\<rparr>)]
       [] (codeUnits ''1-1'') False [''c''] heads"

text \<open>Three boys without preferences, for one group of size 1.\<close>

definition crowdEnv :: env where
  "crowdEnv =
     makeEnv [] [(''a'', boy), (''b'', boy), (''c'', boy)] [] (codeUnits ''1'') False [] heads"

text \<open>
  Two boys with preferences, of whom \<^verbatim>\<open>a\<close> lists \<^verbatim>\<open>b\<close>, for one group of size 2 (at most one
  user of a gender).
\<close>

definition pairEnv :: env where
  "pairEnv =
     makeEnv [(''a'', [''b'']), (''b'', [])]
       [(''a'', boy\<lparr>preferences := Some [''b'']\<rparr>), (''b'', boy\<lparr>preferences := Some []\<rparr>)]
       [] (codeUnits ''2'') False [''a'', ''b''] heads"

text \<open>
  Three girls and five boys without preferences, for a group of size 4 and a group of
  size 2.
\<close>

definition shiftEnv :: env where
  "shiftEnv =
     makeEnv []
       [(''g1'', girl), (''g2'', girl), (''g3'', girl), (''b1'', boy), (''b2'', boy),
        (''b3'', boy), (''b4'', boy), (''b5'', boy)]
       [] (codeUnits ''4-2'') False [] heads"

text \<open>
  A boy \<^verbatim>\<open>b\<close> and a joint entry of two boys, which \<^verbatim>\<open>b\<close> lists, for a group of size 4 (at
  most two users of a gender) and a group of size 2 (at most one). In \<open>jointState\<close> the
  boy \<^verbatim>\<open>b\<close> sits in the group of size 2 and the group of size 4 is empty.
\<close>

definition jointEnv :: env where
  "jointEnv =
     makeEnv [(''b'', [''a--x2'']), (''a--x2'', [])]
       [(''b'', boy\<lparr>preferences := Some [''a--x2'']\<rparr>),
        (''a--x2'', boy\<lparr>preferences := Some []\<rparr>)]
       [] (codeUnits ''4-2'') False [''b'', ''a--x2''] heads"

definition jointState :: phase_state where
  "jointState =
     \<lparr>st_groups = [[], [''b'']], st_placedUsers = [''b''], st_hasUpdatedThisLoop = True\<rparr>"

definition pairResult :: RunResult where
  "pairResult =
     \<lparr>result_groups = [[''b'', ''a'']], result_preferences = env_preferences pairEnv,
      result_users = env_users pairEnv,
      result_details = \<lparr>groupSizes = [Num 2], groupAmount = 1\<rparr>\<rparr>"

section \<open>Properties of the scoring primitives\<close>

lemma getMultiplier_pos: "0 < getMultiplier username"
  by (simp add: getMultiplier_def)

lemma getUGScore_loop_Some:
  "map_of prefs member = Some friends \<Longrightarrow>
   getUGScore_loop prefs grp member score =
     Inr (score + (\<Sum>m\<leftarrow>grp. if m \<in> set friends then getMultiplier m else 0))"
  by (induction grp arbitrary: score) simp_all

lemma getUGScore_loop_None:
  "map_of prefs member = None \<Longrightarrow>
   getUGScore_loop prefs grp member score = (if grp = [] then Inr score else Inl TypeError)"
  by (cases grp) simp_all

text \<open>
  C5, as the code has it. With a preference entry for the candidate, \<^verbatim>\<open>getUGScore\<close> is
  the sum of the multipliers of the group members that the entry lists. With no entry,
  it is zero only for the empty group; for every other group the read of
  \<^verbatim>\<open>preferences[member].includes\<close> throws a \<^verbatim>\<open>TypeError\<close> (the callers guard the call).
\<close>

theorem getUGScore_spec:
  "getUGScore prefs grp member =
     (case map_of prefs member of
        Some friends \<Rightarrow> Inr (\<Sum>m\<leftarrow>grp. if m \<in> set friends then getMultiplier m else 0)
      | None \<Rightarrow> if grp = [] then Inr 0 else Inl TypeError)"
  by (simp add: getUGScore_def getUGScore_loop_Some getUGScore_loop_None split: option.split)

text \<open>
  C5 as stated fails: the candidate \<^verbatim>\<open>carol\<close> has no preference entry, the group has one
  member, and the call throws instead of returning zero.
\<close>

theorem getUGScore_missing_entry_throws:
  "getUGScore [] [''alice''] ''carol'' = Inl TypeError"
  by (simp add: getUGScore_def)

section \<open>The ranking of a group is a permutation of it\<close>

lemma mset_insertBy: "mset (insertBy compare a bs) = add_mset a (mset bs)"
  by (induction bs) simp_all

lemma mset_sortBy_compare: "mset (sortBy_compare compare xs) = mset xs"
  by (induction xs) (simp_all add: mset_insertBy)

text \<open>
  The first element of the sorted array is least, for any relation that the comparator
  decides on the elements.
\<close>

lemma sortBy_compare_Nil: "sortBy_compare compare xs = [] \<Longrightarrow> xs = []"
proof -
  assume "sortBy_compare compare xs = []"
  then have "mset (sortBy_compare compare xs) = {#}" by simp
  then have "mset xs = {#}" by (simp only: mset_sortBy_compare)
  then show "xs = []" by simp
qed


lemma sortBy_compare_head:
  assumes le: "\<forall>a\<in>S. \<forall>b\<in>S. compare a b \<le> 0 \<longrightarrow> R a b"
    and ge: "\<forall>a\<in>S. \<forall>b\<in>S. \<not> compare a b \<le> 0 \<longrightarrow> R b a"
    and trans: "\<forall>a\<in>S. \<forall>b\<in>S. \<forall>c\<in>S. R a b \<longrightarrow> R b c \<longrightarrow> R a c"
  shows "set xs \<subseteq> S \<Longrightarrow> sortBy_compare compare xs = first # others \<Longrightarrow>
         first \<in> set xs \<and> (\<forall>x\<in>set xs. R first x)"
proof (induction xs arbitrary: first others)
  case Nil
  then show ?case by simp
next
  case (Cons a as)
  from Cons.prems(1) have aS: "a \<in> S" and asS: "set as \<subseteq> S"
    by simp_all
  have refl: "R a a"
    using le ge aS by blast
  show ?case
  proof (cases "sortBy_compare compare as")
    case Nil
    then have "as = []" by (rule sortBy_compare_Nil)
    with Cons.prems(2) refl show ?thesis by simp
  next
    case tail: (Cons b bs)
    from Cons.IH [OF asS tail] have b: "b \<in> set as" and least: "\<forall>x\<in>set as. R b x"
      by blast+
    from b asS have bS: "b \<in> S" by blast
    show ?thesis
    proof (cases "compare a b \<le> 0")
      case True
      with Cons.prems(2) tail have f: "first = a" by simp
      from True le aS bS have ab: "R a b" by blast
      have "\<forall>x\<in>set as. R a x"
      proof
        fix x assume x: "x \<in> set as"
        with least have "R b x" by blast
        moreover from x asS have "x \<in> S" by blast
        ultimately show "R a x" using trans ab aS bS by blast
      qed
      with f refl show ?thesis by simp
    next
      case False
      with Cons.prems(2) tail have f: "first = b" by simp
      from False ge aS bS have "R b a" by blast
      with f b least show ?thesis by simp
    qed
  qed
qed

lemma getGUScore_loop_total:
  "set grp \<subseteq> dom (map_of prefs) \<Longrightarrow> \<exists>s. getGUScore_loop prefs grp member score = Inr s"
  by (induction grp arbitrary: score) auto

lemma getGURanking_scores_total:
  "set grp \<subseteq> dom (map_of prefs) \<Longrightarrow>
   \<exists>scores. getGURanking_scores prefs grp rest i = Inr scores \<and> map gu_username scores = rest"
proof (induction rest arbitrary: i)
  case Nil
  then show ?case by simp
next
  case (Cons member rest)
  from Cons.prems obtain s where s: "getGUScore prefs grp member = Inr s"
    using getGUScore_loop_total [of grp prefs member 0] by (auto simp: getGUScore_def)
  from Cons.IH [OF Cons.prems, of "Suc i"] obtain scores
    where "getGURanking_scores prefs grp rest (Suc i) = Inr scores" "map gu_username scores = rest"
    by blast
  with s show ?case by simp
qed

text \<open>
  C10. When every member of the group has a preference entry, \<^verbatim>\<open>getGURanking\<close> returns
  (it does not throw) and its result is a permutation of the group: the same multiset
  of identities, hence the same length and the same set of members.
\<close>

theorem getGURanking_permutation:
  assumes "set grp \<subseteq> dom (map_of prefs)"
  shows "\<exists>ranking. getGURanking prefs grp = Inr ranking \<and> mset ranking = mset grp \<and>
           length ranking = length grp \<and> set ranking = set grp"
proof -
  from getGURanking_scores_total [OF assms, of grp 0] obtain scores
    where sc: "getGURanking_scores prefs grp grp 0 = Inr scores" "map gu_username scores = grp"
    by blast
  let ?ranking = "map gu_username (sortBy_compare gu_compare scores)"
  have r: "getGURanking prefs grp = Inr ?ranking"
    using sc by (simp add: getGURanking_def)
  have m: "mset ?ranking = mset grp"
    using sc(2) mset_sortBy_compare [of gu_compare scores] by (metis mset_map)
  from m have "length ?ranking = length grp" by (rule mset_eq_length)
  moreover from m have "set ?ranking = set grp" by (rule mset_eq_setD)
  ultimately show ?thesis using r m by blast
qed

text \<open>The theorem at a group of two members, both with entries.\<close>

theorem getGURanking_permutation_witness:
  "set [''ann'', ''bob''] \<subseteq> dom (map_of [(''ann'', [''bob'']), (''bob'', [])]) \<and>
   (\<exists>ranking. getGURanking [(''ann'', [''bob'']), (''bob'', [])] [''ann'', ''bob''] = Inr ranking \<and>
      mset ranking = mset [''ann'', ''bob''] \<and> length ranking = length [''ann'', ''bob''] \<and>
      set ranking = set [''ann'', ''bob''])"
proof -
  have h: "set [''ann'', ''bob''] \<subseteq> dom (map_of [(''ann'', [''bob'']), (''bob'', [])])"
    by simp
  from getGURanking_permutation [OF h] h show ?thesis by blast
qed

section \<open>Favorability of small groups\<close>

lemmas metric_defs = byMinFriends_def byMinFriendsUsers_def byMinFavorability_def
  getMinFriends_def getMinFriends_member_def currentFriendsCount_def js_strict_eq_def
  getPercentFavorability_def currentFriendsSum_def listsAsFriend_def getAllMultiplier_def
  getMultiplier_def endsWith_def js_div_def lodash_min_def

text \<open>
  C6. The favorability of the empty group is 1, whatever the preferences. A group whose
  only member has weight 1 and a valid (here empty) preference entry is not empty, and
  its favorability is \<^verbatim>\<open>0 / 0\<close>, that is \<^verbatim>\<open>NaN\<close>, which is no number of the interval from 0
  to 1: the guard of the source covers the empty group only.
\<close>

theorem getPercentFavorability_empty_and_singleton:
  "getPercentFavorability [] prefs = Num 1 \<and>
   getPercentFavorability [''a''] [(''a'', [])] = NaN"
  by (simp add: metric_defs)

subsection \<open>The bound for groups of weight two or more\<close>

lemma foldl_add_sum_list:
  "foldl (\<lambda>acc x. acc + f x) a xs = a + sum_list (map f xs)" for a :: int
  by (induction xs arbitrary: a) simp_all

lemma getAllMultiplier_sum_list: "getAllMultiplier names = sum_list (map getMultiplier names)"
  by (simp add: getAllMultiplier_def foldl_add_sum_list)

lemma foldl_cond_add:
  "foldl (\<lambda>acc x. if P x then acc + f x else acc) a xs =
   a + sum_list (map (\<lambda>x. if P x then f x else 0) xs)" for a :: int
  by (induction xs arbitrary: a) simp_all

lemma currentFriendsSum_sum_list:
  "currentFriendsSum grp prefs =
   (\<Sum>a\<leftarrow>grp. \<Sum>b\<leftarrow>grp. if listsAsFriend prefs a b then getMultiplier a * getMultiplier b else 0)"
proof -
  have "foldl (\<lambda>acc gi.
        foldl (\<lambda>acc gj.
           if listsAsFriend prefs gi gj then acc + getMultiplier gi * getMultiplier gj else acc)
          acc ys) a xs =
     a + (\<Sum>gi\<leftarrow>xs. \<Sum>gj\<leftarrow>ys. if listsAsFriend prefs gi gj
                                  then getMultiplier gi * getMultiplier gj else 0)"
    for a :: int and xs ys
    by (induction xs arbitrary: a) (simp_all add: foldl_cond_add)
  then show ?thesis by (simp add: currentFriendsSum_def)
qed

lemma cond_weight_le:
  "(\<Sum>b\<leftarrow>ys. if P b then getMultiplier b else 0) \<le> sum_list (map getMultiplier ys)"
proof (induction ys)
  case Nil
  then show ?case by simp
next
  case (Cons y ys)
  have "0 < getMultiplier y" by (rule getMultiplier_pos)
  with Cons show ?case by simp
qed

lemma friends_weight_le:
  assumes "\<not> P a" and "a \<in> set ys"
  shows "(\<Sum>b\<leftarrow>ys. if P b then getMultiplier b else 0) + getMultiplier a
           \<le> sum_list (map getMultiplier ys)"
  using assms(2)
proof (induction ys)
  case Nil
  then show ?case by simp
next
  case (Cons y ys)
  have py: "0 < getMultiplier y" by (rule getMultiplier_pos)
  show ?case
  proof (cases "a = y")
    case True
    with assms(1) cond_weight_le [of P ys] show ?thesis by simp
  next
    case False
    with Cons.prems have "a \<in> set ys" by simp
    from Cons.IH [OF this] py show ?thesis by simp
  qed
qed

lemma row_le:
  assumes "a \<in> set grp" and "\<not> listsAsFriend prefs a a"
  shows "(\<Sum>b\<leftarrow>grp. if listsAsFriend prefs a b then getMultiplier a * getMultiplier b else 0)
           \<le> getMultiplier a * (getAllMultiplier grp - 1)"
proof -
  have "(\<Sum>b\<leftarrow>grp. if listsAsFriend prefs a b then getMultiplier a * getMultiplier b else 0) =
        getMultiplier a * (\<Sum>b\<leftarrow>grp. if listsAsFriend prefs a b then getMultiplier b else 0)"
    by (induction grp) (simp_all add: distrib_left)
  moreover have "(\<Sum>b\<leftarrow>grp. if listsAsFriend prefs a b then getMultiplier b else 0)
                   \<le> getAllMultiplier grp - getMultiplier a"
    using friends_weight_le [of "listsAsFriend prefs a" a grp] assms
    by (simp add: getAllMultiplier_sum_list)
  moreover have "1 \<le> getMultiplier a" "0 \<le> getMultiplier a"
    using getMultiplier_pos [of a] by simp_all
  ultimately have eq: "(\<Sum>b\<leftarrow>grp. if listsAsFriend prefs a b then getMultiplier a * getMultiplier b else 0) =
        getMultiplier a * (\<Sum>b\<leftarrow>grp. if listsAsFriend prefs a b then getMultiplier b else 0)"
    and le: "(\<Sum>b\<leftarrow>grp. if listsAsFriend prefs a b then getMultiplier b else 0)
               \<le> getAllMultiplier grp - 1"
    and nn: "0 \<le> getMultiplier a"
    by simp_all
  from mult_left_mono [OF le nn] show ?thesis
    unfolding eq .
qed

lemma row_nonneg:
  "0 \<le> (\<Sum>b\<leftarrow>grp. if listsAsFriend prefs a b then getMultiplier a * getMultiplier b else 0)"
  by (induction grp) (simp_all add: less_imp_le [OF getMultiplier_pos])

lemma currentFriendsSum_bounds:
  assumes "\<forall>member \<in> set grp. \<not> listsAsFriend prefs member member"
  shows "0 \<le> currentFriendsSum grp prefs \<and>
         currentFriendsSum grp prefs \<le> getAllMultiplier grp * (getAllMultiplier grp - 1)"
proof -
  let ?row = "\<lambda>a. \<Sum>b\<leftarrow>grp. if listsAsFriend prefs a b then getMultiplier a * getMultiplier b else 0"
  have "0 \<le> sum_list (map ?row grp)"
    by (rule sum_list_nonneg) (auto simp: row_nonneg)
  moreover have "sum_list (map ?row grp) \<le>
      sum_list (map (\<lambda>a. getMultiplier a * (getAllMultiplier grp - 1)) grp)"
    by (rule sum_list_mono) (use assms row_le in blast)
  moreover have "sum_list (map (\<lambda>a. getMultiplier a * (getAllMultiplier grp - 1)) grp) =
      getAllMultiplier grp * (getAllMultiplier grp - 1)"
    by (simp add: getAllMultiplier_sum_list sum_list_mult_const)
  ultimately show ?thesis
    by (simp add: currentFriendsSum_sum_list)
qed

text \<open>
  Where the formula does stay between 0 and 1: for a group of total weight 2 or more
  in which no member lists itself (members without an entry are allowed, and a member
  may occur in the lists of others or not).
\<close>

lemma getPercentFavorability_in_unit_interval:
  assumes "2 \<le> getAllMultiplier grp"
    and "\<forall>member \<in> set grp. \<not> listsAsFriend prefs member member"
  shows "\<exists>q. getPercentFavorability grp prefs = Num q \<and> 0 \<le> q \<and> q \<le> 1"
proof -
  define w where "w = getAllMultiplier grp"
  define s where "s = currentFriendsSum grp prefs"
  from currentFriendsSum_bounds [OF assms(2)] have s: "0 \<le> s" "s \<le> w * (w - 1)"
    by (simp_all add: s_def w_def)
  from assms(1) have w: "2 \<le> w" by (simp add: w_def)
  then have "0 \<le> (w - 1) * (w - 2)" by simp
  then have "w * (w - 1) \<le> (w - 1) * (w - 1) * 2"
    by (simp add: algebra_simps)
  with s have le: "s \<le> (w - 1) * (w - 1) * 2" by linarith
  from w have pos: "0 < (w - 1) * (w - 1) * 2" by simp
  have ne: "grp \<noteq> []"
    using assms(1) by (auto simp: getAllMultiplier_def)
  define den where "den = (w - 1) * (w - 1) * 2"
  from le pos have den: "s \<le> den" "0 < den"
    by (simp_all add: den_def)
  let ?q = "(of_int s :: rat) / of_int den"
  have "getPercentFavorability grp prefs = js_div (of_int s) (of_int den)"
    using ne by (simp add: getPercentFavorability_def s_def den_def w_def)
  moreover have "js_div (of_int s) (of_int den) = Num ?q"
    using den(2) by (simp add: js_div_def)
  ultimately have "getPercentFavorability grp prefs = Num ?q"
    by simp
  moreover have "0 \<le> ?q"
    using s(1) den(2) by simp
  moreover have "?q \<le> 1"
    using den by simp
  ultimately show ?thesis by blast
qed

section \<open>The result that \<^verbatim>\<open>runMany\<close> selects\<close>

lemma byMinFriends_trialLow: "byMinFriends trialLow = Num 2"
  by (simp add: trialLow_def trialPreferences_def metric_defs)

lemma byMinFriends_trialHigh: "byMinFriends trialHigh = Num 3"
  by (simp add: trialHigh_def trialPreferences_def metric_defs)

lemma byMinFriendsUsers_trials:
  "byMinFriendsUsers trialLow = Num 4 \<and> byMinFriendsUsers trialHigh = Num 4"
  by (simp add: trialLow_def trialHigh_def trialPreferences_def metric_defs)

text \<open>
  C1. Of two results whose \<^verbatim>\<open>minFriends\<close> are 2 and 3, with the same number of users at
  the minimum, \<^verbatim>\<open>runMany\<close> selects the one with \<^verbatim>\<open>minFriends\<close> 2, in whichever order the
  two runs finished: \<^verbatim>\<open>_.sortBy\<close> sorts in ascending order and the first criterion is not
  negated (the third one is).
\<close>

theorem bestResult_has_lower_minFriends:
  "byMinFriends trialLow = Num 2 \<and> byMinFriends trialHigh = Num 3 \<and>
   bestResult [trialLow, trialHigh] = Inr trialLow \<and>
   bestResult [trialHigh, trialLow] = Inr trialLow"
  by (simp add: bestResult_def lodash_sortBy_def compareMultiple_def compareAscending_def
      byMinFriends_trialLow byMinFriends_trialHigh js_gt_def js_strict_eq_def upt_rec)

subsection \<open>The selected result has the least \<^verbatim>\<open>minFriends\<close>\<close>

lemma js_lt_facts:
  "js_lt a b \<Longrightarrow> \<not> js_lt b a \<and> a \<noteq> b \<and> a \<noteq> NaN \<and> b \<noteq> NaN"
  by (cases a; cases b) simp_all

lemma js_lt_total_order:
  "a \<noteq> NaN \<Longrightarrow> b \<noteq> NaN \<Longrightarrow> c \<noteq> NaN \<Longrightarrow> \<not> js_lt b a \<Longrightarrow> \<not> js_lt c b \<Longrightarrow> \<not> js_lt c a"
  by (cases a; cases b; cases c) simp_all

lemma compareAscending_lt:
  "js_lt a b \<Longrightarrow> compareAscending a b = - 1 \<and> compareAscending b a = 1"
  using js_lt_facts [of a b] by (auto simp: compareAscending_def js_strict_eq_def js_gt_def)

lemma compareMultiple_first_criterion:
  assumes "fst (snd object) = a # as" and "fst (snd other) = b # bs"
  shows "(js_lt a b \<longrightarrow> compareMultiple object other \<le> 0) \<and>
         (js_lt b a \<longrightarrow> \<not> compareMultiple object other \<le> 0)"
  using assms compareAscending_lt [of a b] compareAscending_lt [of b a]
  by (auto simp: compareMultiple_def)

lemma getMinFriends_member_not_NaN:
  "minFriends cur \<noteq> NaN \<Longrightarrow> minFriends (getMinFriends_member prefs grp cur username) \<noteq> NaN"
  by (simp add: getMinFriends_member_def Let_def split: option.split)

lemma foldl_member_not_NaN:
  "minFriends cur \<noteq> NaN \<Longrightarrow> minFriends (foldl (getMinFriends_member prefs grp) cur members) \<noteq> NaN"
  by (induction members arbitrary: cur) (simp_all add: getMinFriends_member_not_NaN)

lemma foldl_groups_not_NaN:
  "minFriends cur \<noteq> NaN \<Longrightarrow>
   minFriends (foldl (\<lambda>cur grp. foldl (getMinFriends_member prefs grp) cur grp) cur gs) \<noteq> NaN"
  by (induction gs arbitrary: cur) (simp_all add: foldl_member_not_NaN)

lemma byMinFriends_not_NaN: "byMinFriends result \<noteq> NaN"
  by (simp add: byMinFriends_def getMinFriends_def foldl_groups_not_NaN)

text \<open>
  Whatever the results are, the one that \<^verbatim>\<open>runMany\<close> selects has the least \<^verbatim>\<open>minFriends\<close> of
  all: no result has a smaller one.
\<close>

lemma bestResult_least_minFriends:
  assumes "bestResult results = Inr best"
  shows "best \<in> set results \<and>
         (\<forall>result \<in> set results. \<not> js_lt (byMinFriends result) (byMinFriends best))"
proof -
  define iteratees where "iteratees = [byMinFriends, byMinFriendsUsers, byMinFavorability]"
  define entries where "entries =
     map (\<lambda>(v, i). (v, map (\<lambda>iteratee. iteratee v) iteratees, i))
       (zip results [0 ..< length results])"
  define R where "R = (\<lambda>(x :: RunResult \<times> jsnum list \<times> nat) (y :: RunResult \<times> jsnum list \<times> nat).
     \<not> js_lt (byMinFriends (fst y)) (byMinFriends (fst x)))"
  have fsts: "map fst entries = results"
    by (simp add: entries_def case_prod_unfold comp_def)
  have crit: "\<forall>e \<in> set entries. \<exists>rest. fst (snd e) = byMinFriends (fst e) # rest"
    by (auto simp: entries_def iteratees_def)
  from assms obtain first others where
    srt: "sortBy_compare compareMultiple entries = first # others" and b: "best = fst first"
    by (cases "sortBy_compare compareMultiple entries")
       (auto simp: bestResult_def lodash_sortBy_def entries_def iteratees_def)
  have le: "\<forall>a\<in>set entries. \<forall>b\<in>set entries. compareMultiple a b \<le> 0 \<longrightarrow> R a b"
  proof (intro ballI impI)
    fix x y assume "x \<in> set entries" "y \<in> set entries" and c: "compareMultiple x y \<le> 0"
    with crit obtain xs ys where "fst (snd x) = byMinFriends (fst x) # xs"
      "fst (snd y) = byMinFriends (fst y) # ys"
      by blast
    from compareMultiple_first_criterion [OF this] c show "R x y"
      unfolding R_def by blast
  qed
  have ge: "\<forall>a\<in>set entries. \<forall>b\<in>set entries. \<not> compareMultiple a b \<le> 0 \<longrightarrow> R b a"
  proof (intro ballI impI)
    fix x y assume "x \<in> set entries" "y \<in> set entries" and c: "\<not> compareMultiple x y \<le> 0"
    with crit obtain xs ys where "fst (snd x) = byMinFriends (fst x) # xs"
      "fst (snd y) = byMinFriends (fst y) # ys"
      by blast
    from compareMultiple_first_criterion [OF this] c show "R y x"
      unfolding R_def by blast
  qed
  have trans: "\<forall>a\<in>set entries. \<forall>b\<in>set entries. \<forall>c\<in>set entries. R a b \<longrightarrow> R b c \<longrightarrow> R a c"
    unfolding R_def using js_lt_total_order byMinFriends_not_NaN by blast
  from sortBy_compare_head [OF le ge trans subset_refl srt]
  have f: "first \<in> set entries" and least: "\<forall>x\<in>set entries. R first x"
    by blast+
  from f have "fst first \<in> set (map fst entries)" by simp
  with fsts b have "best \<in> set results" by simp
  moreover have "\<forall>result \<in> set results. \<not> js_lt (byMinFriends result) (byMinFriends best)"
  proof
    fix result assume "result \<in> set results"
    with fsts have "result \<in> fst ` set entries" by (metis set_map)
    then obtain e where "e \<in> set entries" "fst e = result" by blast
    with least b show "\<not> js_lt (byMinFriends result) (byMinFriends best)"
      unfolding R_def by blast
  qed
  ultimately show ?thesis by blast
qed

section \<open>Parsing a malformed schedule\<close>

lemmas parse_defs = getGroupSizes_def split_def parseInt_def stripSign_def stripPrefix_def
  isWhiteSpace_def digitOf_def digitsValue_def descending_def js_sub_def codeUnits_def

lemma parseInt_no_digit:
  assumes "dropWhile isWhiteSpace token = c # rest"
    and "10 \<le> digitOf c" and "c \<noteq> of_char CHR ''+''" and "c \<noteq> of_char CHR ''-''"
  shows "parseInt token = NaN"
proof -
  have "stripSign (dropWhile isWhiteSpace token) = (1, c # rest)"
    using assms by (simp add: stripSign_def)
  moreover have "c \<noteq> of_char CHR ''0''"
    using assms(2) by (auto simp: digitOf_def)
  then have "stripPrefix (c # rest) = (10, c # rest)"
    by (cases rest) (simp_all add: stripPrefix_def)
  ultimately show ?thesis
    using assms(2) by (simp add: parseInt_def)
qed

text \<open>A no-break space before the digits is dropped like a space.\<close>

lemma parseInt_drops_no_break_space:
  "parseInt (0x00A0 # codeUnits ''5'') = Num 5 \<and> parseInt (codeUnits '' 5'') = Num 5"
  by (simp add: parseInt_def stripSign_def stripPrefix_def isWhiteSpace_def digitOf_def
      digitsValue_def codeUnits_def)

lemma split_from_no_separator:
  "token \<in> set (split_from separator piece s) \<Longrightarrow> separator \<notin> set piece \<Longrightarrow>
   separator \<notin> set token"
proof (induction s arbitrary: piece)
  case Nil
  then show ?case by simp
next
  case (Cons c s)
  show ?case
  proof (cases "c = separator")
    case True
    with Cons.prems have "token = piece \<or> token \<in> set (split_from separator [] s)"
      by simp
    then show ?thesis
      using Cons.prems(2) Cons.IH [of "[]"] by auto
  next
    case False
    with Cons.prems have "token \<in> set (split_from separator (piece @ [c]) s)"
      by simp
    then show ?thesis
      using Cons.prems(2) False Cons.IH [of "piece @ [c]"] by auto
  qed
qed

text \<open>
  C9, as the code has it. For every schedule string \<^verbatim>\<open>getGroupSizes\<close> has no failure: its
  result is a rearrangement of the values that \<^verbatim>\<open>parseInt\<close> gives for the
  hyphen-separated tokens. And a token that, after its leading white space, starts with
  a character that is no digit and no sign is parsed to \<^verbatim>\<open>NaN\<close>, which is then a capacity
  of the size sequence.
\<close>

theorem getGroupSizes_nonnumeric_token:
  "mset (getGroupSizes argument) = mset (map parseInt (split (of_char CHR ''-'') argument)) \<and>
   (token \<in> set (split (of_char CHR ''-'') argument) \<and>
    dropWhile isWhiteSpace token = c # rest \<and> 10 \<le> digitOf c \<and> c \<noteq> of_char CHR ''+'' \<longrightarrow>
      parseInt token = NaN \<and> NaN \<in> set (getGroupSizes argument))"
proof (intro conjI impI)
  show m: "mset (getGroupSizes argument) = mset (map parseInt (split (of_char CHR ''-'') argument))"
    by (simp add: getGroupSizes_def mset_sortBy_compare)
  assume h: "token \<in> set (split (of_char CHR ''-'') argument) \<and>
    dropWhile isWhiteSpace token = c # rest \<and> 10 \<le> digitOf c \<and> c \<noteq> of_char CHR ''+''"
  have "c \<in> set (dropWhile isWhiteSpace token)"
    using h by simp
  then have "c \<in> set token"
    by (rule set_dropWhileD)
  moreover have "of_char CHR ''-'' \<notin> set token"
    using h split_from_no_separator [of token "of_char CHR ''-''" "[]" argument]
    by (simp add: split_def)
  ultimately have "c \<noteq> of_char CHR ''-''"
    by blast
  with h show n: "parseInt token = NaN"
    by (simp add: parseInt_no_digit)
  with h have "NaN \<in> set (map parseInt (split (of_char CHR ''-'') argument))"
    by force
  with m show "NaN \<in> set (getGroupSizes argument)"
    by (metis set_mset_mset)
qed

text \<open>The theorem at the schedule \<^verbatim>\<open>20-x-30\<close>, whose second token is \<^verbatim>\<open>x\<close>.\<close>

theorem getGroupSizes_nonnumeric_token_witness:
  "codeUnits ''x'' \<in> set (split (of_char CHR ''-'') (codeUnits ''20-x-30'')) \<and>
   dropWhile isWhiteSpace (codeUnits ''x'') = [of_char CHR ''x''] \<and>
   10 \<le> digitOf (of_char CHR ''x'') \<and>
   mset (getGroupSizes (codeUnits ''20-x-30'')) =
     mset (map parseInt (split (of_char CHR ''-'') (codeUnits ''20-x-30''))) \<and>
   parseInt (codeUnits ''x'') = NaN \<and>
   NaN \<in> set (getGroupSizes (codeUnits ''20-x-30''))"
proof -
  have h: "codeUnits ''x'' \<in> set (split (of_char CHR ''-'') (codeUnits ''20-x-30''))"
    "dropWhile isWhiteSpace (codeUnits ''x'') = [of_char CHR ''x'']"
    "10 \<le> digitOf (of_char CHR ''x'')" "of_char CHR ''x'' \<noteq> (of_char CHR ''+'' :: int)"
    by (simp_all add: split_def digitOf_def isWhiteSpace_def codeUnits_def)
  from getGroupSizes_nonnumeric_token
    [of "codeUnits ''20-x-30''" "codeUnits ''x''" "of_char CHR ''x''" "[]"] h
  show ?thesis
    by blast
qed

text \<open>
  C9 as stated fails: the schedule \<^verbatim>\<open>abc\<close> is parsed, with no error, to the single
  capacity \<^verbatim>\<open>NaN\<close>.
\<close>

theorem getGroupSizes_abc_is_NaN:
  "getGroupSizes (codeUnits ''abc'') = [NaN]"
  by (simp add: parse_defs)
section \<open>The fallback placement\<close>

text \<open>
  The tie-breaking criterion of the fallback order is zero for every group and every
  user: the score is computed on the zipped pair, whose elements are an array and a
  number.
\<close>

lemma friendsInGroup_zero: "friendsInGroup env gs username g = Inr (Num 0)"
  by (simp add: friendsInGroup_def getUGScore_any_def split: option.split)

text \<open>
  C3. The boy \<^verbatim>\<open>c\<close> lists \<^verbatim>\<open>f\<close>. When the second loop reaches \<^verbatim>\<open>c\<close>, the two groups hold \<^verbatim>\<open>x\<close> and
  \<^verbatim>\<open>f\<close> and are tied on weighted size minus target size; the score of \<^verbatim>\<open>c\<close> is 0 against
  the first and 1 against the second. The sorted order still has the first group
  first, and \<^verbatim>\<open>c\<close> ends in the group of \<^verbatim>\<open>x\<close>.
\<close>

theorem fallback_ties_keep_schedule_order:
  "remainingSpots friendEnv [[''x''], [''f'']] 0 = Num 0 \<and>
   remainingSpots friendEnv [[''x''], [''f'']] 1 = Num 0 \<and>
   getUGScore (env_preferences friendEnv) [''x''] ''c'' = Inr 0 \<and>
   getUGScore (env_preferences friendEnv) [''f''] ''c'' = Inr 1 \<and>
   sizeSortedGroups friendEnv [[''x''], [''f'']] ''c'' = Inr [0, 1] \<and>
   map_sum id result_groups (run friendEnv) = Inr [[''x'', ''c''], [''f'']]"
  by code_simp

text \<open>
  The limits of the three passes are read at the loop counter \<open>j\<close>, not at the group
  that is tried. In the second pass \<open>j\<close> is beyond the end of the schedule, and the
  comparison with the size that is read there is false: with the schedule \<^verbatim>\<open>1\<close> the boy
  \<^verbatim>\<open>c\<close> is pushed at \<open>j = 1\<close>, in the second pass, into the group of \<^verbatim>\<open>a\<close> and \<^verbatim>\<open>b\<close>, which
  \<^verbatim>\<open>hasMaximum\<close> reports as over the size 1 of that group.
\<close>

lemma fallback_pass_two_ignores_size_cap:
  "env_groupSizes crowdEnv = [Num 1] \<and>
   map_sum id result_groups (run crowdEnv) = Inr [[''a'', ''b'', ''c'']] \<and>
   allUsernamesLoop crowdEnv [] [[]] [''a'', ''b''] = Inr [[''a'', ''b'']] \<and>
   sizeSortedGroups crowdEnv [[''a'', ''b'']] ''c'' = Inr [0] \<and>
   hasMaximum [''a'', ''b''] True (Num 1) PosInf False (env_users crowdEnv) = Inr True \<and>
   fallbackScan crowdEnv [[''a'', ''b'']] [0] ''c'' [0 ..< 3] = Inr (Some 1)"
  by code_simp

text \<open>
  In the first pass \<open>j\<close> is a position of the sorted list. With the schedule \<^verbatim>\<open>4-2\<close>, when
  the last boy is reached the group of size 2 holds two boys and is first in the sorted
  list, so it is tested against the limits of the group of size 4 and the boy is
  pushed at \<open>j = 0\<close>, though \<^verbatim>\<open>hasMaximum\<close> reports the group as over its own same-gender
  limit.
\<close>

lemma fallback_pass_one_reads_other_cap:
  "env_groupSizes shiftEnv = [Num 4, Num 2] \<and>
   allUsernamesLoop shiftEnv [] [[], []]
       [''g1'', ''g2'', ''g3'', ''b1'', ''b2'', ''b3'', ''b4''] =
     Inr [[''g1'', ''g2'', ''g3'', ''b2'', ''b4''], [''b1'', ''b3'']] \<and>
   sizeSortedGroups shiftEnv [[''g1'', ''g2'', ''g3'', ''b2'', ''b4''], [''b1'', ''b3'']] ''b5'' =
     Inr [1, 0] \<and>
   hasMaximum [''b1'', ''b3''] True (Num 2) (floorHalf (Num 2)) False (env_users shiftEnv) =
     Inr True \<and>
   fallbackScan shiftEnv [[''g1'', ''g2'', ''g3'', ''b2'', ''b4''], [''b1'', ''b3'']] [1, 0]
       ''b5'' [0 ..< 6] = Inr (Some 0)"
  by code_simp

text \<open>
  C2. Both runs together: the second pass does not enforce the total-size limit of
  the group, and the first pass does not enforce the limits of the group it tries.
\<close>

theorem fallback_passes_miss_group_caps:
  "fallbackScan crowdEnv [[''a'', ''b'']] [0] ''c'' [0 ..< 3] = Inr (Some 1) \<and>
   hasMaximum [''a'', ''b''] True (sizeAt (env_groupSizes crowdEnv) 0) PosInf False
       (env_users crowdEnv) = Inr True \<and>
   fallbackScan shiftEnv [[''g1'', ''g2'', ''g3'', ''b2'', ''b4''], [''b1'', ''b3'']] [1, 0]
       ''b5'' [0 ..< 6] = Inr (Some 0) \<and>
   hasMaximum [''b1'', ''b3''] True (sizeAt (env_groupSizes shiftEnv) 1)
       (floorHalf (sizeAt (env_groupSizes shiftEnv) 1)) False (env_users shiftEnv) = Inr True"
  by code_simp

section \<open>Eviction of the newly added identity\<close>

lemma getGURanking_scores_usernames:
  "getGURanking_scores prefs grp rest i = Inr scores \<Longrightarrow> map gu_username scores = rest"
proof (induction rest arbitrary: i scores)
  case Nil
  then show ?case by simp
next
  case (Cons member rest)
  from Cons.prems obtain score scores' where
    "getGURanking_scores prefs grp rest (Suc i) = Inr scores'"
    "scores = \<lparr>gu_username = member, gu_score = score, gu_index = i\<rparr> # scores'"
    by (auto split: sum.splits)
  with Cons.IH show ?case by auto
qed

lemma getGURanking_mset:
  assumes "getGURanking prefs grp = Inr ranking"
  shows "mset ranking = mset grp"
proof -
  from assms obtain scores where sc: "getGURanking_scores prefs grp grp 0 = Inr scores"
    and r: "ranking = map gu_username (sortBy_compare gu_compare scores)"
    by (auto simp: getGURanking_def split: sum.splits)
  have "mset (map gu_username (sortBy_compare gu_compare scores)) = mset (map gu_username scores)"
    by (simp add: mset_sortBy_compare)
  with getGURanking_scores_usernames [OF sc] r show ?thesis by simp
qed

lemma in_set_splice:
  assumes "x \<in> set xs" and "k < length xs" and "xs ! k \<noteq> x"
  shows "x \<in> set (take k xs @ drop (Suc k) xs)"
proof -
  have "xs = take k xs @ xs ! k # drop (Suc k) xs"
    using assms(2) by (rule id_take_nth_drop)
  then have "set xs = set (take k xs @ xs ! k # drop (Suc k) xs)"
    by simp
  then have "set xs = set (take k xs) \<union> {xs ! k} \<union> set (drop (Suc k) xs)"
    by (simp only: set_append list.simps(15)) auto
  with assms(1,3) show ?thesis by auto
qed


lemma evictLoop_Suc_in_range:
  assumes "evictLoop users male username (Suc k) guRanked placed removed = Inr result"
  shows "k < length guRanked \<and> (\<exists>detail. map_of users (guRanked ! k) = Some detail)"
proof -
  have k: "k < length guRanked"
    using assms by (cases "length guRanked \<le> k") simp_all
  moreover have "map_of users (guRanked ! k) \<noteq> None"
    using assms k by (cases "map_of users (guRanked ! k)") simp_all
  ultimately show ?thesis by auto
qed

lemma evictLoop_keeps_username:
  assumes "evictLoop users male username n guRanked placed removed = Inr (evicted, stillPlaced, left)"
    and "0 \<le> removed" and "left \<noteq> ContinueRankLoop"
  shows "(username \<in> set guRanked \<longrightarrow> username \<in> set evicted) \<and>
         (username \<in> set placed \<longrightarrow> username \<in> set stillPlaced)"
  using assms
proof (induction n arbitrary: guRanked placed removed)
  case 0
  then show ?case by simp
next
  case (Suc k)
  from evictLoop_Suc_in_range [OF Suc.prems(1)] obtain detail
    where k: "k < length guRanked" and d: "map_of users (guRanked ! k) = Some detail"
    by blast
  show ?case
  proof (cases "isMale detail = male")
    case False
    with Suc.prems(1) k d
    have "evictLoop users male username k guRanked placed removed = Inr (evicted, stillPlaced, left)"
      by simp
    from Suc.IH [OF this Suc.prems(2,3)] show ?thesis .
  next
    case True
    let ?removedUser = "guRanked ! k"
    let ?spliced = "take k guRanked @ drop (Suc k) guRanked"
    let ?removed = "removed + getMultiplier ?removedUser"
    let ?placed = "filter (\<lambda>placedUser. placedUser \<noteq> ?removedUser) placed"
    have unfold: "evictLoop users male username (Suc k) guRanked placed removed =
        (if getMultiplier username \<le> ?removed
         then Inr (?spliced, ?placed,
                   if username = ?removedUser then ContinueRankLoop else BreakRankLoop)
         else evictLoop users male username k ?spliced ?placed ?removed)"
      using k d True by (simp add: Let_def)
    have neq: "?removedUser \<noteq> username"
    proof
      assume eq: "?removedUser = username"
      then have "getMultiplier username \<le> ?removed"
        using Suc.prems(2) by simp
      with Suc.prems(1) eq have "left = ContinueRankLoop"
        unfolding unfold by simp
      with Suc.prems(3) show False by simp
    qed
    have keep: "(username \<in> set guRanked \<longrightarrow> username \<in> set ?spliced) \<and>
                (username \<in> set placed \<longrightarrow> username \<in> set ?placed)"
      using neq k in_set_splice [of username guRanked k] by auto
    show ?thesis
    proof (cases "getMultiplier username \<le> ?removed")
      case True
      with Suc.prems(1) have "evicted = ?spliced" "stillPlaced = ?placed"
        unfolding unfold by simp_all
      with keep show ?thesis by simp
    next
      case False
      with Suc.prems(1)
      have "evictLoop users male username k ?spliced ?placed ?removed = Inr (evicted, stillPlaced, left)"
        unfolding unfold by simp
      moreover have "0 \<le> ?removed"
        using Suc.prems(2) getMultiplier_pos [of ?removedUser] by simp
      ultimately have "(username \<in> set ?spliced \<longrightarrow> username \<in> set evicted) \<and>
         (username \<in> set ?placed \<longrightarrow> username \<in> set stillPlaced)"
        using Suc.IH Suc.prems(3) by blast
      with keep show ?thesis by blast
    qed
  qed
qed


lemma evictLoop_continue_unplaced:
  assumes "evictLoop users male username n guRanked placed removed =
             Inr (evicted, stillPlaced, ContinueRankLoop)"
  shows "username \<notin> set stillPlaced"
  using assms
proof (induction n arbitrary: guRanked placed removed)
  case 0
  then show ?case by simp
next
  case (Suc k)
  from evictLoop_Suc_in_range [OF Suc.prems(1)] obtain detail
    where k: "k < length guRanked" and d: "map_of users (guRanked ! k) = Some detail"
    by blast
  show ?case
  proof (cases "isMale detail = male")
    case False
    with Suc.prems(1) k d
    have "evictLoop users male username k guRanked placed removed =
            Inr (evicted, stillPlaced, ContinueRankLoop)"
      by simp
    then show ?thesis by (rule Suc.IH)
  next
    case True
    let ?removedUser = "guRanked ! k"
    let ?spliced = "take k guRanked @ drop (Suc k) guRanked"
    let ?removed = "removed + getMultiplier ?removedUser"
    let ?placed = "filter (\<lambda>placedUser. placedUser \<noteq> ?removedUser) placed"
    have unfold: "evictLoop users male username (Suc k) guRanked placed removed =
        (if getMultiplier username \<le> ?removed
         then Inr (?spliced, ?placed,
                   if username = ?removedUser then ContinueRankLoop else BreakRankLoop)
         else evictLoop users male username k ?spliced ?placed ?removed)"
      using k d True by (simp add: Let_def)
    show ?thesis
    proof (cases "getMultiplier username \<le> ?removed")
      case True
      with Suc.prems(1) have "stillPlaced = ?placed" "username = ?removedUser"
        unfolding unfold by (simp_all split: if_splits)
      then show ?thesis by simp
    next
      case False
      with Suc.prems(1)
      have "evictLoop users male username k ?spliced ?placed ?removed =
              Inr (evicted, stillPlaced, ContinueRankLoop)"
        unfolding unfold by simp
      then show ?thesis by (rule Suc.IH)
    qed
  qed
qed

text \<open>
  C7. When the eviction after a tentative placement removes the new identity itself
  from the group, the eviction loop was left by \<^verbatim>\<open>continue ugRankLoop\<close>, whatever was evicted
  before: the identity is not among the placed, and the walk goes on with the
  next-ranked groups from the state that the eviction left. The turn of the identity
  does not end there: when the next-ranked group admits the identity in that state (the
  identity may try it, and the group with the identity is within its maxima), the walk
  ends with the identity placed in the next-ranked group.
\<close>

theorem self_eviction_continues_walk:
  assumes "canTryJoiningGroup (env_antiPreferences env) (st_groups st ! groupID) username"
    and "getGURanking (env_preferences env) (groupWithNew (st_groups st ! groupID) username) =
           Inr guRanked"
    and "map_of (env_users env) username = Some user"
    and "hasMaximum guRanked (isMale user) (sizeAt (env_groupSizes env) groupID)
           (floorHalf (sizeAt (env_groupSizes env) groupID))
           (env_oneGenderGroups env) (env_users env) = Inr True"
    and "evictLoop (env_users env) (isMale user) username (length guRanked) guRanked
           (st_placedUsers st @ [username]) 0 = Inr (evicted, placed, left)"
    and "username \<notin> set evicted"
  shows "left = ContinueRankLoop \<and> username \<notin> set placed \<and>
         ugRankLoop env username (groupID # rest) st =
           ugRankLoop env username rest
             (st\<lparr>st_groups := (st_groups st)[groupID := evicted], st_placedUsers := placed\<rparr>) \<and>
         (canTryJoiningGroup (env_antiPreferences env)
            ((st_groups st)[groupID := evicted] ! nextID) username \<and>
          getGURanking (env_preferences env)
            (groupWithNew ((st_groups st)[groupID := evicted] ! nextID) username) = Inr nextRanked \<and>
          hasMaximum nextRanked (isMale user) (sizeAt (env_groupSizes env) nextID)
            (floorHalf (sizeAt (env_groupSizes env) nextID))
            (env_oneGenderGroups env) (env_users env) = Inr False \<longrightarrow>
          ugRankLoop env username (groupID # nextID # later) st =
            Inr (st\<lparr>st_groups := (st_groups st)[groupID := evicted, nextID := nextRanked],
                    st_placedUsers := placed @ [username],
                    st_hasUpdatedThisLoop := True\<rparr>) \<and>
          username \<in> set nextRanked)"
proof -
  let ?st = "st\<lparr>st_groups := (st_groups st)[groupID := evicted], st_placedUsers := placed\<rparr>"
  have "set guRanked = set (groupWithNew (st_groups st ! groupID) username)"
    using getGURanking_mset [OF assms(2)] by (rule mset_eq_setD)
  then have "username \<in> set guRanked"
    by (simp add: groupWithNew_def)
  with evictLoop_keeps_username [OF assms(5)] assms(6) have left: "left = ContinueRankLoop"
    by auto
  with assms(5) have unplaced: "username \<notin> set placed"
    using evictLoop_continue_unplaced by blast
  have walk: "ugRankLoop env username (groupID # more) st = ugRankLoop env username more ?st"
    for more
    using assms(1-5) left by simp
  have next_group: "ugRankLoop env username (groupID # nextID # later) st =
            Inr (st\<lparr>st_groups := (st_groups st)[groupID := evicted, nextID := nextRanked],
                    st_placedUsers := placed @ [username],
                    st_hasUpdatedThisLoop := True\<rparr>) \<and>
          username \<in> set nextRanked"
    if may: "canTryJoiningGroup (env_antiPreferences env)
            ((st_groups st)[groupID := evicted] ! nextID) username"
      and ranked: "getGURanking (env_preferences env)
            (groupWithNew ((st_groups st)[groupID := evicted] ! nextID) username) = Inr nextRanked"
      and within: "hasMaximum nextRanked (isMale user) (sizeAt (env_groupSizes env) nextID)
            (floorHalf (sizeAt (env_groupSizes env) nextID))
            (env_oneGenderGroups env) (env_users env) = Inr False"
  proof
    have step: "ugRankLoop env username (nextID # later) ?st =
            Inr (?st\<lparr>st_groups := (st_groups ?st)[nextID := nextRanked],
                     st_placedUsers := st_placedUsers ?st @ [username],
                     st_hasUpdatedThisLoop := True\<rparr>)"
      using may ranked within assms(3) by simp
    have same: "?st\<lparr>st_groups := (st_groups ?st)[nextID := nextRanked],
                     st_placedUsers := st_placedUsers ?st @ [username],
                     st_hasUpdatedThisLoop := True\<rparr> =
                st\<lparr>st_groups := (st_groups st)[groupID := evicted, nextID := nextRanked],
                    st_placedUsers := placed @ [username],
                    st_hasUpdatedThisLoop := True\<rparr>"
      by simp
    show "ugRankLoop env username (groupID # nextID # later) st =
            Inr (st\<lparr>st_groups := (st_groups st)[groupID := evicted, nextID := nextRanked],
                    st_placedUsers := placed @ [username],
                    st_hasUpdatedThisLoop := True\<rparr>)"
      by (simp only: walk step same)
    have "set nextRanked = set (groupWithNew ((st_groups st)[groupID := evicted] ! nextID) username)"
      using getGURanking_mset [OF ranked] by (rule mset_eq_setD)
    then show "username \<in> set nextRanked"
      by (simp add: groupWithNew_def)
  qed
  from left unplaced walk [of rest] next_group show ?thesis
    by blast
qed

text \<open>
  The theorem at the turn of the joint entry \<^verbatim>\<open>a--x2\<close> in \<open>jointState\<close>. Its ranking of the
  groups is the group of size 2, where \<^verbatim>\<open>b\<close> sits, before the empty group of size 4. In
  the group of size 2 the eviction first removes \<^verbatim>\<open>b\<close>, of weight 1, and then the joint
  entry of weight 2 itself; the walk goes on to the group of size 4, and the joint entry
  is placed there.
\<close>

theorem self_eviction_continues_walk_witness:
  "getUGRanking (env_sample jointEnv 0 1) (env_preferences jointEnv) (st_groups jointState)
     ''a--x2'' = Inr [1, 0] \<and>
   canTryJoiningGroup (env_antiPreferences jointEnv) (st_groups jointState ! 1) ''a--x2'' \<and>
   getGURanking (env_preferences jointEnv) (groupWithNew (st_groups jointState ! 1) ''a--x2'') =
     Inr [''a--x2'', ''b''] \<and>
   map_of (env_users jointEnv) ''a--x2'' = Some (boy\<lparr>preferences := Some []\<rparr>) \<and>
   hasMaximum [''a--x2'', ''b''] (isMale (boy\<lparr>preferences := Some []\<rparr>))
     (sizeAt (env_groupSizes jointEnv) 1) (floorHalf (sizeAt (env_groupSizes jointEnv) 1))
     (env_oneGenderGroups jointEnv) (env_users jointEnv) = Inr True \<and>
   evictLoop (env_users jointEnv) (isMale (boy\<lparr>preferences := Some []\<rparr>)) ''a--x2''
     (length [''a--x2'', ''b'']) [''a--x2'', ''b''] (st_placedUsers jointState @ [''a--x2'']) 0 =
     Inr ([], [], ContinueRankLoop) \<and>
   ''a--x2'' \<notin> set [] \<and>
   canTryJoiningGroup (env_antiPreferences jointEnv)
     ((st_groups jointState)[1 := []] ! 0) ''a--x2'' \<and>
   getGURanking (env_preferences jointEnv)
     (groupWithNew ((st_groups jointState)[1 := []] ! 0) ''a--x2'') = Inr [''a--x2''] \<and>
   hasMaximum [''a--x2''] (isMale (boy\<lparr>preferences := Some []\<rparr>))
     (sizeAt (env_groupSizes jointEnv) 0) (floorHalf (sizeAt (env_groupSizes jointEnv) 0))
     (env_oneGenderGroups jointEnv) (env_users jointEnv) = Inr False \<and>
   ugRankLoop jointEnv ''a--x2'' [1, 0] jointState =
     Inr (jointState\<lparr>st_groups := (st_groups jointState)[1 := [], 0 := [''a--x2'']],
                     st_placedUsers := [] @ [''a--x2''],
                     st_hasUpdatedThisLoop := True\<rparr>) \<and>
   ugRankLoop jointEnv ''a--x2'' [1, 0] jointState =
     Inr \<lparr>st_groups = [[''a--x2''], []], st_placedUsers = [''a--x2''],
          st_hasUpdatedThisLoop = True\<rparr>"
proof -
  have h0: "getUGRanking (env_sample jointEnv 0 1) (env_preferences jointEnv)
     (st_groups jointState) ''a--x2'' = Inr [1, 0]"
    by code_simp
  have h1: "canTryJoiningGroup (env_antiPreferences jointEnv) (st_groups jointState ! 1) ''a--x2''"
    by code_simp
  have h2: "getGURanking (env_preferences jointEnv)
              (groupWithNew (st_groups jointState ! 1) ''a--x2'') = Inr [''a--x2'', ''b'']"
    by code_simp
  have h3: "map_of (env_users jointEnv) ''a--x2'' = Some (boy\<lparr>preferences := Some []\<rparr>)"
    by code_simp
  have h4: "hasMaximum [''a--x2'', ''b''] (isMale (boy\<lparr>preferences := Some []\<rparr>))
     (sizeAt (env_groupSizes jointEnv) 1) (floorHalf (sizeAt (env_groupSizes jointEnv) 1))
     (env_oneGenderGroups jointEnv) (env_users jointEnv) = Inr True"
    by code_simp
  have h5: "evictLoop (env_users jointEnv) (isMale (boy\<lparr>preferences := Some []\<rparr>)) ''a--x2''
     (length [''a--x2'', ''b'']) [''a--x2'', ''b''] (st_placedUsers jointState @ [''a--x2'']) 0 =
     Inr ([], [], ContinueRankLoop)"
    by code_simp
  have h6: "''a--x2'' \<notin> set []"
    by simp
  have n1: "canTryJoiningGroup (env_antiPreferences jointEnv)
     ((st_groups jointState)[1 := []] ! 0) ''a--x2''"
    by code_simp
  have n2: "getGURanking (env_preferences jointEnv)
     (groupWithNew ((st_groups jointState)[1 := []] ! 0) ''a--x2'') = Inr [''a--x2'']"
    by code_simp
  have n3: "hasMaximum [''a--x2''] (isMale (boy\<lparr>preferences := Some []\<rparr>))
     (sizeAt (env_groupSizes jointEnv) 0) (floorHalf (sizeAt (env_groupSizes jointEnv) 0))
     (env_oneGenderGroups jointEnv) (env_users jointEnv) = Inr False"
    by code_simp
  have r: "jointState\<lparr>st_groups := (st_groups jointState)[1 := [], 0 := [''a--x2'']],
                     st_placedUsers := [] @ [''a--x2''],
                     st_hasUpdatedThisLoop := True\<rparr> =
     \<lparr>st_groups = [[''a--x2''], []], st_placedUsers = [''a--x2''],
      st_hasUpdatedThisLoop = True\<rparr>"
    by (simp add: jointState_def)
  from self_eviction_continues_walk [OF h1 h2 h3 h4 h5 h6, of "[0]" 0 "[''a--x2'']" "[]"]
    n1 n2 n3
  have walk: "ugRankLoop jointEnv ''a--x2'' [1, 0] jointState =
     Inr (jointState\<lparr>st_groups := (st_groups jointState)[1 := [], 0 := [''a--x2'']],
                     st_placedUsers := [] @ [''a--x2''],
                     st_hasUpdatedThisLoop := True\<rparr>)"
    by blast
  then have "ugRankLoop jointEnv ''a--x2'' [1, 0] jointState =
     Inr \<lparr>st_groups = [[''a--x2''], []], st_placedUsers = [''a--x2''],
          st_hasUpdatedThisLoop = True\<rparr>"
    by (simp only: r)
  with walk h0 h1 h2 h3 h4 h5 h6 n1 n2 n3 show ?thesis
    by blast
qed

text \<open>The ways in which the walk can deal with the first of the groups to try.\<close>

lemma ugRankLoop_Cons:
  assumes "ugRankLoop env username (groupID # rest) st = Inr after"
  obtains
    (conflict) "\<not> canTryJoiningGroup (env_antiPreferences env) (st_groups st ! groupID) username"
      and "ugRankLoop env username rest st = Inr after"
  | (joined) guRanked user where
      "getGURanking (env_preferences env) (groupWithNew (st_groups st ! groupID) username) = Inr guRanked"
      and "map_of (env_users env) username = Some user"
      and "after = st\<lparr>st_groups := (st_groups st)[groupID := guRanked],
                        st_placedUsers := st_placedUsers st @ [username],
                        st_hasUpdatedThisLoop := True\<rparr>"
  | (selfEvicted) guRanked user evicted placed where
      "getGURanking (env_preferences env) (groupWithNew (st_groups st ! groupID) username) = Inr guRanked"
      and "map_of (env_users env) username = Some user"
      and "evictLoop (env_users env) (isMale user) username (length guRanked) guRanked
             (st_placedUsers st @ [username]) 0 = Inr (evicted, placed, ContinueRankLoop)"
      and "ugRankLoop env username rest
             (st\<lparr>st_groups := (st_groups st)[groupID := evicted], st_placedUsers := placed\<rparr>) = Inr after"
  | (evicted) guRanked user evicted placed left where
      "getGURanking (env_preferences env) (groupWithNew (st_groups st ! groupID) username) = Inr guRanked"
      and "map_of (env_users env) username = Some user"
      and "evictLoop (env_users env) (isMale user) username (length guRanked) guRanked
             (st_placedUsers st @ [username]) 0 = Inr (evicted, placed, left)"
      and "left \<noteq> ContinueRankLoop"
      and "after = st\<lparr>st_groups := (st_groups st)[groupID := evicted], st_placedUsers := placed,
                        st_hasUpdatedThisLoop := True\<rparr>"
proof (cases "canTryJoiningGroup (env_antiPreferences env) (st_groups st ! groupID) username")
  case False
  with assms conflict show ?thesis by simp
next
  case can: True
  from assms can obtain guRanked where g: "getGURanking (env_preferences env)
      (groupWithNew (st_groups st ! groupID) username) = Inr guRanked"
    by (cases "getGURanking (env_preferences env) (groupWithNew (st_groups st ! groupID) username)")
       simp_all
  from assms can g obtain user where u: "map_of (env_users env) username = Some user"
    by (cases "map_of (env_users env) username") simp_all
  let ?max = "hasMaximum guRanked (isMale user) (sizeAt (env_groupSizes env) groupID)
          (floorHalf (sizeAt (env_groupSizes env) groupID))
          (env_oneGenderGroups env) (env_users env)"
  from assms can g u obtain full where m: "?max = Inr full"
    by (cases ?max) simp_all
  show ?thesis
  proof (cases full)
    case False
    with assms can g u m joined show ?thesis by simp
  next
    case True
    let ?ev = "evictLoop (env_users env) (isMale user) username (length guRanked) guRanked
             (st_placedUsers st @ [username]) 0"
    from assms can g u m True obtain evicted placed left where e: "?ev = Inr (evicted, placed, left)"
      by (cases ?ev) auto
    show ?thesis
    proof (cases "left = ContinueRankLoop")
      case True
      with assms can g u m \<open>full\<close> e selfEvicted show ?thesis by simp
    next
      case False
      with assms can g u m \<open>full\<close> e have "after = st\<lparr>st_groups := (st_groups st)[groupID := evicted],
          st_placedUsers := placed, st_hasUpdatedThisLoop := True\<rparr>"
        by (cases left) simp_all
      with g u e False evicted show ?thesis by blast
    qed
  qed
qed

lemma ugRankLoop_flag:
  assumes "ugRankLoop env username ranking st = Inr after"
    and "st_hasUpdatedThisLoop after" and "\<not> st_hasUpdatedThisLoop st"
  shows "username \<in> set (st_placedUsers after)"
  using assms
proof (induction ranking arbitrary: st)
  case Nil
  then show ?case by simp
next
  case (Cons groupID rest)
  from Cons.prems(1) show ?case
  proof (cases rule: ugRankLoop_Cons)
    case conflict
    with Cons.IH Cons.prems show ?thesis by blast
  next
    case (joined guRanked user)
    then show ?thesis by simp
  next
    case (selfEvicted guRanked user evicted placed)
    from Cons.IH [OF selfEvicted(4) Cons.prems(2)] Cons.prems(3) show ?thesis by simp
  next
    case (evicted guRanked user evicted placed left)
    from evictLoop_keeps_username [OF evicted(3) _ evicted(4)] have "username \<in> set placed"
      by simp
    with evicted(5) show ?thesis by simp
  qed
qed

section \<open>The first loop terminates\<close>

lemma phaseA_step_cases:
  assumes "phaseA_step env (i, currentLoopAmounts, st) = Inr (i', loops', st')"
  shows "(i' = i + 1 \<and> loops' = currentLoopAmounts) \<or>
         (i' = 0 \<and> loops' = currentLoopAmounts + 1 \<and> i + 1 = length (env_userOrder env) \<and>
          currentLoopAmounts < MOVE_ON_COUNT \<and>
          length (st_placedUsers st') < length (env_userOrder env) \<and>
          \<not> st_hasUpdatedThisLoop st' \<and>
          (\<exists>ugRanked after.
             getUGRanking (env_sample env currentLoopAmounts i) (env_preferences env)
               (st_groups st) (env_userOrder env ! i) = Inr ugRanked \<and>
             ugRankLoop env (env_userOrder env ! i) ugRanked st = Inr after \<and>
             st_hasUpdatedThisLoop after \<and>
             st' = after\<lparr>st_hasUpdatedThisLoop := False\<rparr>))"
proof (cases "env_userOrder env ! i \<in> set (st_placedUsers st)")
  case True
  with assms show ?thesis
    by (simp add: phaseA_step_def)
next
  case False
  with assms obtain ugRanked where r: "getUGRanking (env_sample env currentLoopAmounts i)
      (env_preferences env) (st_groups st) (env_userOrder env ! i) = Inr ugRanked"
    by (cases "getUGRanking (env_sample env currentLoopAmounts i)
      (env_preferences env) (st_groups st) (env_userOrder env ! i)") (simp_all add: phaseA_step_def)
  with assms False obtain after where a: "ugRankLoop env (env_userOrder env ! i) ugRanked st = Inr after"
    by (cases "ugRankLoop env (env_userOrder env ! i) ugRanked st") (simp_all add: phaseA_step_def)
  show ?thesis
  proof (cases "i + 1 = length (env_userOrder env) \<and>
                length (st_placedUsers after) < length (env_userOrder env) \<and>
                st_hasUpdatedThisLoop after \<and> currentLoopAmounts < MOVE_ON_COUNT")
    case True
    with assms False r a have "i' = 0" "loops' = currentLoopAmounts + 1"
      "st' = after\<lparr>st_hasUpdatedThisLoop := False\<rparr>"
      by (simp_all add: phaseA_step_def)
    with True r a show ?thesis by simp
  next
    case False
    with assms \<open>env_userOrder env ! i \<notin> set (st_placedUsers st)\<close> r a
    have "i' = i + 1" "loops' = currentLoopAmounts"
      by (auto simp add: phaseA_step_def)
    then show ?thesis by simp
  qed
qed

lemma iterationsLeft_step:
  assumes "phaseA_step env (i, currentLoopAmounts, st) = Inr next"
    and "i < length (env_userOrder env)"
  shows "iterationsLeft env next < iterationsLeft env (i, currentLoopAmounts, st)"
proof -
  obtain i' loops' st' where n: "next = (i', loops', st')"
    by (cases "next") auto
  from phaseA_step_cases [OF assms(1) [unfolded n]]
  show ?thesis
  proof
    assume "i' = i + 1 \<and> loops' = currentLoopAmounts"
    with assms(2) show ?thesis
      by (simp add: n iterationsLeft_def)
  next
    assume r: "i' = 0 \<and> loops' = currentLoopAmounts + 1 \<and> i + 1 = length (env_userOrder env) \<and>
          currentLoopAmounts < MOVE_ON_COUNT \<and>
          length (st_placedUsers st') < length (env_userOrder env) \<and>
          \<not> st_hasUpdatedThisLoop st' \<and>
          (\<exists>ugRanked after.
             getUGRanking (env_sample env currentLoopAmounts i) (env_preferences env)
               (st_groups st) (env_userOrder env ! i) = Inr ugRanked \<and>
             ugRankLoop env (env_userOrder env ! i) ugRanked st = Inr after \<and>
             st_hasUpdatedThisLoop after \<and>
             st' = after\<lparr>st_hasUpdatedThisLoop := False\<rparr>)"
    then obtain d where d: "MOVE_ON_COUNT - currentLoopAmounts = Suc d"
      "MOVE_ON_COUNT - (currentLoopAmounts + 1) = d"
      by (cases "MOVE_ON_COUNT - currentLoopAmounts") auto
    from r have "length (env_userOrder env) - i = 1" by linarith
    with r d show ?thesis
      by (simp add: n iterationsLeft_def)
  qed
qed

lemma phaseA_within_enough:
  "iterationsLeft env s \<le> fuel \<Longrightarrow> phaseA_within fuel env s = Some (phaseA_loop env s)"
proof (induction env s arbitrary: fuel rule: phaseA_loop.induct)
  case (1 env i currentLoopAmounts st)
  show ?case
  proof (cases "i < length (env_userOrder env)")
    case False
    then show ?thesis by simp
  next
    case True
    show ?thesis
    proof (cases "phaseA_step env (i, currentLoopAmounts, st)")
      case (Inl e)
      from True "1.prems" have "fuel \<noteq> 0"
        by (auto simp: iterationsLeft_def)
      then obtain m where "fuel = Suc m" by (cases fuel) auto
      with True Inl show ?thesis by simp
    next
      case (Inr "next")
      from iterationsLeft_step [OF Inr True] "1.prems"
      obtain m where m: "fuel = Suc m" "iterationsLeft env next \<le> m"
        by (cases fuel) auto
      from "1.IH" [OF True Inr m(2)] True Inr m(1) show ?thesis
        by (cases "next") simp
    qed
  qed
qed

lemma phaseA_loop_restarts:
  "phaseA_loop env s = Inr (i', loops', st') \<Longrightarrow> fst (snd s) \<le> MOVE_ON_COUNT \<Longrightarrow>
   loops' \<le> MOVE_ON_COUNT"
proof (induction env s rule: phaseA_loop.induct)
  case (1 env i currentLoopAmounts st)
  show ?case
  proof (cases "i < length (env_userOrder env)")
    case False
    with "1.prems" show ?thesis by simp
  next
    case True
    with "1.prems"(1) obtain "next" where n: "phaseA_step env (i, currentLoopAmounts, st) = Inr next"
      "phaseA_loop env next = Inr (i', loops', st')"
      by (cases "phaseA_step env (i, currentLoopAmounts, st)") simp_all
    obtain j l t where nx: "next = (j, l, t)" by (cases "next") auto
    from phaseA_step_cases [OF n(1) [unfolded nx]] "1.prems"(2) have "l \<le> MOVE_ON_COUNT"
      by auto
    with "1.IH" [OF True n(1) n(2)] nx show ?thesis by simp
  qed
qed

text \<open>
  The flag \<^verbatim>\<open>hasUpdatedThisLoop\<close> is raised only by an iteration that places its identity.
\<close>

lemma phaseA_step_flag:
  assumes "phaseA_step env (i, currentLoopAmounts, st) = Inr (i', loops', st')"
    and "st_hasUpdatedThisLoop st'"
  shows "st_hasUpdatedThisLoop st \<or> placedNow env i st st'"
proof (cases "env_userOrder env ! i \<in> set (st_placedUsers st)")
  case True
  with assms show ?thesis
    by (simp add: phaseA_step_def)
next
  case False
  with assms(1) obtain ugRanked where r: "getUGRanking (env_sample env currentLoopAmounts i)
      (env_preferences env) (st_groups st) (env_userOrder env ! i) = Inr ugRanked"
    by (cases "getUGRanking (env_sample env currentLoopAmounts i)
      (env_preferences env) (st_groups st) (env_userOrder env ! i)") (simp_all add: phaseA_step_def)
  with assms(1) False obtain after
    where a: "ugRankLoop env (env_userOrder env ! i) ugRanked st = Inr after"
    by (cases "ugRankLoop env (env_userOrder env ! i) ugRanked st") (simp_all add: phaseA_step_def)
  from assms(1) False r a have "st' = after \<or> st' = after\<lparr>st_hasUpdatedThisLoop := False\<rparr>"
    by (simp add: phaseA_step_def split: if_splits)
  with assms(2) have same: "st' = after"
    by auto
  show ?thesis
  proof (cases "st_hasUpdatedThisLoop st")
    case True
    then show ?thesis by simp
  next
    case down: False
    from ugRankLoop_flag [OF a assms(2) [unfolded same] down] False same show ?thesis
      by (simp add: placedNow_def)
  qed
qed

text \<open>An iteration that restarts the loop found the flag raised or has placed its identity.\<close>

lemma phaseA_step_restart_placed:
  assumes "phaseA_step env (i, currentLoopAmounts, st) = Inr (i', loops', st')"
    and "i' \<noteq> i + 1"
  shows "st_hasUpdatedThisLoop st \<or> placedNow env i st st'"
proof -
  have unplaced: "env_userOrder env ! i \<notin> set (st_placedUsers st)"
    using assms by (auto simp: phaseA_step_def)
  from phaseA_step_cases [OF assms(1)] assms(2) obtain ugRanked after where
    w: "ugRankLoop env (env_userOrder env ! i) ugRanked st = Inr after"
      "st_hasUpdatedThisLoop after" "st' = after\<lparr>st_hasUpdatedThisLoop := False\<rparr>"
    by blast
  show ?thesis
  proof (cases "st_hasUpdatedThisLoop st")
    case True
    then show ?thesis by simp
  next
    case False
    from ugRankLoop_flag [OF w(1,2) False] unplaced w(3) show ?thesis
      by (simp add: placedNow_def)
  qed
qed

text \<open>
  In a run the flag is up only when an iteration of the pass that is running has placed
  its identity.
\<close>

lemma visits_flag:
  "visits env placedInPass s \<Longrightarrow> st_hasUpdatedThisLoop (snd (snd s)) \<Longrightarrow> placedInPass"
proof (induction rule: visits.induct)
  case start
  then show ?case
    by (simp add: startState_def)
next
  case (same_pass placedInPass i currentLoopAmounts st loops' st')
  from same_pass.prems have "st_hasUpdatedThisLoop st'"
    by simp
  from phaseA_step_flag [OF same_pass.hyps(3) this] same_pass.IH show ?case
    by auto
next
  case (restart placedInPass i currentLoopAmounts st loops' st')
  from phaseA_step_cases [OF restart.hyps(3)] have "\<not> st_hasUpdatedThisLoop st'"
    by auto
  with restart.prems show ?case
    by simp
qed

text \<open>
  The counters and states of \<open>visits\<close> are those of the loop of the run: from each of
  them the loop ends as it ends from the start state.
\<close>

lemma visits_on_path:
  "visits env placedInPass s \<Longrightarrow> phaseA_loop env s = phaseA_loop env (0, 0, startState env)"
proof (induction rule: visits.induct)
  case start
  show ?case ..
next
  case (same_pass placedInPass i currentLoopAmounts st loops' st')
  have "phaseA_loop env (i, currentLoopAmounts, st) = phaseA_loop env (i + 1, loops', st')"
    using same_pass.hyps(2,3) by (simp only: phaseA_loop.simps [of env i currentLoopAmounts st]
        if_True sum.case)
  with same_pass.IH show ?case
    by simp
next
  case (restart placedInPass i currentLoopAmounts st loops' st')
  have "phaseA_loop env (i, currentLoopAmounts, st) = phaseA_loop env (0, loops', st')"
    using restart.hyps(2,3) by (simp only: phaseA_loop.simps [of env i currentLoopAmounts st]
        if_True sum.case)
  with restart.IH show ?case
    by simp
qed

lemma run_from_startState:
  "run env =
     (case phaseA_loop env (0, 0, startState env) of
        Inl e \<Rightarrow> Inl e
      | Inr (i, currentLoopAmounts, st) \<Rightarrow>
          (case allUsernamesLoop env (st_placedUsers st) (st_groups st)
                  (map fst (env_users env)) of
             Inl e \<Rightarrow> Inl e
           | Inr gs \<Rightarrow>
               Inr \<lparr>result_groups = gs, result_preferences = env_preferences env,
                    result_users = env_users env,
                    result_details = \<lparr>groupSizes = env_groupSizes env,
                                       groupAmount = length (env_groupSizes env)\<rparr>\<rparr>))"
  by (simp add: run_def startState_def)

text \<open>
  C8. An iteration of the first loop that does not go on to the next position is a
  restart: it is the iteration of the last position, fewer than 100 restarts have been
  made, \<^verbatim>\<open>placedUsers\<close> is shorter than the order (so that, the order being a shuffle of
  distinct keys, one of its identities is not placed), and the flag was up after the
  walk of this iteration. In a run, that is from the start state, a restart is made only
  when an iteration of the pass that it ends has placed its identity (an earlier
  iteration of the pass, or the last one). From the initial counters the loop ends
  within \<open>101 * length userOrder\<close> iterations, that is within 101 full passes, with the
  result of \<open>phaseA_loop\<close>, and it has made at most 100 restarts.
\<close>

theorem phaseA_restart_rule_and_bound:
  "(phaseA_step env (i, currentLoopAmounts, st) = Inr (i', loops', st') \<and> i' \<noteq> i + 1 \<longrightarrow>
      i' = 0 \<and> loops' = currentLoopAmounts + 1 \<and> i + 1 = length (env_userOrder env) \<and>
      currentLoopAmounts < 100 \<and>
      length (st_placedUsers st') < length (env_userOrder env) \<and>
      (distinct (env_userOrder env) \<longrightarrow>
         (\<exists>name \<in> set (env_userOrder env). name \<notin> set (st_placedUsers st'))) \<and>
      (\<exists>ugRanked after.
         ugRankLoop env (env_userOrder env ! i) ugRanked st = Inr after \<and>
         st_hasUpdatedThisLoop after \<and>
         (st_hasUpdatedThisLoop st \<or> env_userOrder env ! i \<in> set (st_placedUsers after)) \<and>
         st' = after\<lparr>st_hasUpdatedThisLoop := False\<rparr>)) \<and>
   (visits env placedInPass (i, currentLoopAmounts, st) \<and>
    phaseA_step env (i, currentLoopAmounts, st) = Inr (i', loops', st') \<and> i' \<noteq> i + 1 \<longrightarrow>
      placedInPass \<or> placedNow env i st st') \<and>
   phaseA_within (101 * length (env_userOrder env)) env (0, 0, st0) =
     Some (phaseA_loop env (0, 0, st0)) \<and>
   (phaseA_loop env (0, 0, st0) = Inr (iEnd, loopsEnd, stEnd) \<longrightarrow> loopsEnd \<le> 100)"
proof (intro conjI impI)
  assume a: "phaseA_step env (i, currentLoopAmounts, st) = Inr (i', loops', st') \<and> i' \<noteq> i + 1"
  with phaseA_step_cases [of env i currentLoopAmounts st i' loops' st']
  have r: "i' = 0" "loops' = currentLoopAmounts + 1" "i + 1 = length (env_userOrder env)"
    "currentLoopAmounts < MOVE_ON_COUNT"
    "length (st_placedUsers st') < length (env_userOrder env)"
    and ex: "\<exists>ugRanked after.
             getUGRanking (env_sample env currentLoopAmounts i) (env_preferences env)
               (st_groups st) (env_userOrder env ! i) = Inr ugRanked \<and>
             ugRankLoop env (env_userOrder env ! i) ugRanked st = Inr after \<and>
             st_hasUpdatedThisLoop after \<and>
             st' = after\<lparr>st_hasUpdatedThisLoop := False\<rparr>"
    by auto
  from r show "i' = 0" "loops' = currentLoopAmounts + 1" "i + 1 = length (env_userOrder env)"
    "currentLoopAmounts < 100" "length (st_placedUsers st') < length (env_userOrder env)"
    by (simp_all add: MOVE_ON_COUNT_def)
  show "\<exists>name \<in> set (env_userOrder env). name \<notin> set (st_placedUsers st')"
    if d: "distinct (env_userOrder env)"
  proof (rule ccontr)
    assume "\<not> (\<exists>name \<in> set (env_userOrder env). name \<notin> set (st_placedUsers st'))"
    then have "set (env_userOrder env) \<subseteq> set (st_placedUsers st')"
      by blast
    then have "card (set (env_userOrder env)) \<le> card (set (st_placedUsers st'))"
      by (simp add: card_mono)
    also have "\<dots> \<le> length (st_placedUsers st')"
      by (rule card_length)
    finally have "length (env_userOrder env) \<le> length (st_placedUsers st')"
      using d by (simp add: distinct_card)
    with r(5) show False by simp
  qed
  from ex obtain ugRanked after where
    w: "ugRankLoop env (env_userOrder env ! i) ugRanked st = Inr after"
      "st_hasUpdatedThisLoop after" "st' = after\<lparr>st_hasUpdatedThisLoop := False\<rparr>"
    by blast
  have "st_hasUpdatedThisLoop st \<or> env_userOrder env ! i \<in> set (st_placedUsers after)"
    using ugRankLoop_flag [OF w(1,2)] by blast
  with w show "\<exists>ugRanked after.
         ugRankLoop env (env_userOrder env ! i) ugRanked st = Inr after \<and>
         st_hasUpdatedThisLoop after \<and>
         (st_hasUpdatedThisLoop st \<or> env_userOrder env ! i \<in> set (st_placedUsers after)) \<and>
         st' = after\<lparr>st_hasUpdatedThisLoop := False\<rparr>"
    by blast
next
  assume v: "visits env placedInPass (i, currentLoopAmounts, st) \<and>
    phaseA_step env (i, currentLoopAmounts, st) = Inr (i', loops', st') \<and> i' \<noteq> i + 1"
  then have "st_hasUpdatedThisLoop st \<or> placedNow env i st st'"
    using phaseA_step_restart_placed by blast
  moreover have "placedInPass" if "st_hasUpdatedThisLoop st"
    using v that visits_flag [of env placedInPass "(i, currentLoopAmounts, st)"] by simp
  ultimately show "placedInPass \<or> placedNow env i st st'"
    by blast
next
  have "iterationsLeft env (0, 0, st0) \<le> 101 * length (env_userOrder env)"
    by (simp add: iterationsLeft_def MOVE_ON_COUNT_def)
  then show "phaseA_within (101 * length (env_userOrder env)) env (0, 0, st0) =
     Some (phaseA_loop env (0, 0, st0))"
    by (rule phaseA_within_enough)
next
  assume "phaseA_loop env (0, 0, st0) = Inr (iEnd, loopsEnd, stEnd)"
  from phaseA_loop_restarts [OF this] show "loopsEnd \<le> 100"
    by (simp add: MOVE_ON_COUNT_def)
qed

text \<open>
  The theorem at the run of two boys for one group of size 2. The first iteration places
  \<^verbatim>\<open>a\<close>. The second iteration, of the last position, places \<^verbatim>\<open>b\<close> and evicts \<^verbatim>\<open>a\<close>, who is
  then the identity that is not placed, and the loop restarts once.
\<close>

theorem phaseA_restart_rule_and_bound_witness:
  "startState pairEnv = \<lparr>st_groups = [[]], st_placedUsers = [], st_hasUpdatedThisLoop = False\<rparr> \<and>
   phaseA_step pairEnv (0, 0, startState pairEnv) =
     Inr (0 + 1, 0, \<lparr>st_groups = [[''a'']], st_placedUsers = [''a''], st_hasUpdatedThisLoop = True\<rparr>) \<and>
   placedNow pairEnv 0 (startState pairEnv)
     \<lparr>st_groups = [[''a'']], st_placedUsers = [''a''], st_hasUpdatedThisLoop = True\<rparr> \<and>
   visits pairEnv True
     (1, 0, \<lparr>st_groups = [[''a'']], st_placedUsers = [''a''], st_hasUpdatedThisLoop = True\<rparr>) \<and>
   phaseA_step pairEnv
     (1, 0, \<lparr>st_groups = [[''a'']], st_placedUsers = [''a''], st_hasUpdatedThisLoop = True\<rparr>) =
     Inr (0, 1, \<lparr>st_groups = [[''b'']], st_placedUsers = [''b''], st_hasUpdatedThisLoop = False\<rparr>) \<and>
   (0 :: nat) \<noteq> 1 + 1 \<and>
   1 + 1 = length (env_userOrder pairEnv) \<and>
   (0 :: nat) < 100 \<and>
   length (st_placedUsers
     \<lparr>st_groups = [[''b'']], st_placedUsers = [''b''], st_hasUpdatedThisLoop = False\<rparr>) <
     length (env_userOrder pairEnv) \<and>
   distinct (env_userOrder pairEnv) \<and>
   (\<exists>name \<in> set (env_userOrder pairEnv). name \<notin> set (st_placedUsers
     \<lparr>st_groups = [[''b'']], st_placedUsers = [''b''], st_hasUpdatedThisLoop = False\<rparr>)) \<and>
   (True \<or> placedNow pairEnv 1
      \<lparr>st_groups = [[''a'']], st_placedUsers = [''a''], st_hasUpdatedThisLoop = True\<rparr>
      \<lparr>st_groups = [[''b'']], st_placedUsers = [''b''], st_hasUpdatedThisLoop = False\<rparr>) \<and>
   phaseA_within (101 * length (env_userOrder pairEnv)) pairEnv (0, 0, startState pairEnv) =
     Some (phaseA_loop pairEnv (0, 0, startState pairEnv)) \<and>
   phaseA_loop pairEnv (0, 0, startState pairEnv) =
     Inr (2, 1, \<lparr>st_groups = [[''b'']], st_placedUsers = [''b''], st_hasUpdatedThisLoop = False\<rparr>) \<and>
   (1 :: nat) \<le> 100"
proof -
  let ?st1 = "\<lparr>st_groups = [[''a'']], st_placedUsers = [''a''], st_hasUpdatedThisLoop = True\<rparr>"
  let ?st2 = "\<lparr>st_groups = [[''b'']], st_placedUsers = [''b''], st_hasUpdatedThisLoop = False\<rparr>"
  have s0: "startState pairEnv =
      \<lparr>st_groups = [[]], st_placedUsers = [], st_hasUpdatedThisLoop = False\<rparr>"
    by code_simp
  have s1: "phaseA_step pairEnv (0, 0, startState pairEnv) = Inr (0 + 1, 0, ?st1)"
    by code_simp
  have p1: "placedNow pairEnv 0 (startState pairEnv) ?st1"
    by code_simp
  have len: "0 < length (env_userOrder pairEnv)"
    by code_simp
  from visits.same_pass [OF visits.start len s1] p1 have v: "visits pairEnv True (1, 0, ?st1)"
    by simp
  have h1: "phaseA_step pairEnv (1, 0, ?st1) = Inr (0, 1, ?st2)"
    by code_simp
  have h2: "phaseA_loop pairEnv (0, 0, startState pairEnv) = Inr (2, 1, ?st2)"
    by code_simp
  have h3: "(0 :: nat) \<noteq> 1 + 1"
    by simp
  have h4: "distinct (env_userOrder pairEnv)"
    by code_simp
  from phaseA_restart_rule_and_bound [where env = pairEnv and i = 1 and currentLoopAmounts = 0
      and st = ?st1 and i' = 0 and loops' = 1 and st' = ?st2 and placedInPass = True
      and ?st0.0 = "startState pairEnv" and iEnd = 2 and loopsEnd = 1 and stEnd = ?st2]
    s0 s1 p1 v h1 h2 h3 h4
  show ?thesis by blast
qed
section \<open>No identity is placed twice\<close>

lemma concat_list_update:
  assumes "g < length gs"
  shows "concat (gs[g := grp]) = concat (take g gs) @ grp @ concat (drop (Suc g) gs)"
proof -
  have "gs[g := grp] = take g gs @ grp # drop (Suc g) gs"
    using assms by (rule upd_conv_take_nth_drop)
  then show ?thesis by simp
qed

lemma placement_ok_update:
  assumes "g < length gs"
  shows "placement_ok (gs[g := grp]) placed \<longleftrightarrow>
         distinct (otherGroups gs g @ grp) \<and> set (otherGroups gs g @ grp) \<subseteq> set placed"
  unfolding placement_ok_def otherGroups_def concat_list_update [OF assms]
  by auto

lemma placement_ok_nth:
  assumes "g < length gs"
  shows "placement_ok gs placed \<longleftrightarrow>
         distinct (otherGroups gs g @ gs ! g) \<and> set (otherGroups gs g @ gs ! g) \<subseteq> set placed"
  using placement_ok_update [OF assms, of "gs ! g" placed] by simp

lemma splice_distinct:
  assumes "distinct xs" and "k < length xs"
  shows "distinct (take k xs @ drop (Suc k) xs) \<and>
         set (take k xs @ drop (Suc k) xs) = set xs - {xs ! k}"
proof -
  have eq: "xs = take k xs @ xs ! k # drop (Suc k) xs"
    using assms(2) by (rule id_take_nth_drop)
  define a b x where "a = take k xs" and "b = drop (Suc k) xs" and "x = xs ! k"
  from eq have "xs = a @ x # b" by (simp add: a_def b_def x_def)
  with assms(1) have "distinct (a @ b) \<and> set (a @ b) = set xs - {x}"
    by auto
  then show ?thesis by (simp add: a_def b_def x_def)
qed

lemma evictLoop_keeps_partition:
  assumes "evictLoop users male username n guRanked placed removed = Inr (evicted, stillPlaced, left)"
    and "distinct (others @ guRanked)" and "set (others @ guRanked) \<subseteq> set placed"
  shows "distinct (others @ evicted) \<and> set (others @ evicted) \<subseteq> set stillPlaced"
  using assms
proof (induction n arbitrary: guRanked placed removed)
  case 0
  then show ?case by simp
next
  case (Suc k)
  from evictLoop_Suc_in_range [OF Suc.prems(1)] obtain detail
    where k: "k < length guRanked" and d: "map_of users (guRanked ! k) = Some detail"
    by blast
  show ?case
  proof (cases "isMale detail = male")
    case False
    with Suc.prems(1) k d
    have "evictLoop users male username k guRanked placed removed = Inr (evicted, stillPlaced, left)"
      by simp
    from Suc.IH [OF this Suc.prems(2,3)] show ?thesis .
  next
    case True
    let ?removedUser = "guRanked ! k"
    let ?spliced = "take k guRanked @ drop (Suc k) guRanked"
    let ?removed = "removed + getMultiplier ?removedUser"
    let ?placed = "filter (\<lambda>placedUser. placedUser \<noteq> ?removedUser) placed"
    have unfold: "evictLoop users male username (Suc k) guRanked placed removed =
        (if getMultiplier username \<le> ?removed
         then Inr (?spliced, ?placed,
                   if username = ?removedUser then ContinueRankLoop else BreakRankLoop)
         else evictLoop users male username k ?spliced ?placed ?removed)"
      using k d True by (simp add: Let_def)
    from Suc.prems(2) have dg: "distinct guRanked" and dis: "set others \<inter> set guRanked = {}"
      and dother: "distinct others"
      by auto
    from splice_distinct [OF dg k]
    have sp: "distinct ?spliced" "set ?spliced = set guRanked - {?removedUser}"
      by blast+
    from k have mem: "?removedUser \<in> set guRanked" by simp
    have d1: "distinct (others @ ?spliced)"
      using sp dother dis by auto
    have d2: "set (others @ ?spliced) \<subseteq> set ?placed"
      using sp(2) dis mem Suc.prems(3) by auto
    show ?thesis
    proof (cases "getMultiplier username \<le> ?removed")
      case True
      with Suc.prems(1) have "evicted = ?spliced" "stillPlaced = ?placed"
        unfolding unfold by simp_all
      with d1 d2 show ?thesis by simp
    next
      case False
      with Suc.prems(1)
      have "evictLoop users male username k ?spliced ?placed ?removed = Inr (evicted, stillPlaced, left)"
        unfolding unfold by simp
      from Suc.IH [OF this d1 d2] show ?thesis .
    qed
  qed
qed

text \<open>The group after the tentative placement of a user that is in no group.\<close>

lemma placement_ok_joined:
  assumes ok: "placement_ok gs placed" and g: "g < length gs"
    and new: "username \<notin> set placed"
    and rank: "getGURanking prefs (groupWithNew (gs ! g) username) = Inr guRanked"
  shows "distinct (otherGroups gs g @ guRanked) \<and>
         set (otherGroups gs g @ guRanked) \<subseteq> set (placed @ [username])"
proof -
  from ok g have o: "distinct (otherGroups gs g @ gs ! g)"
    "set (otherGroups gs g @ gs ! g) \<subseteq> set placed"
    using placement_ok_nth by blast+
  from o(1) have o1: "distinct (otherGroups gs g)" "distinct (gs ! g)"
    "set (otherGroups gs g) \<inter> set (gs ! g) = {}"
    by simp_all
  from o(2) have o2: "set (otherGroups gs g) \<subseteq> set placed" "set (gs ! g) \<subseteq> set placed"
    by simp_all
  have m: "mset guRanked = mset (gs ! g @ [username])"
    using getGURanking_mset [OF rank] by (simp add: groupWithNew_def)
  from m have "set guRanked = set (gs ! g @ [username])"
    by (rule mset_eq_setD)
  then have s: "set guRanked = insert username (set (gs ! g))"
    by simp
  from new o2 have fresh: "username \<notin> set (otherGroups gs g)" "username \<notin> set (gs ! g)"
    by blast+
  have "distinct (gs ! g @ [username])"
    using o1(2) fresh(2) by simp
  then have dr: "distinct guRanked"
    using mset_eq_imp_distinct_iff [OF m] by simp
  have "set (otherGroups gs g) \<inter> set guRanked = {}"
    unfolding s using o1(3) fresh(1) by blast
  with o1(1) dr have "distinct (otherGroups gs g @ guRanked)"
    by simp
  moreover have "set (otherGroups gs g @ guRanked) \<subseteq> set (placed @ [username])"
    unfolding set_append s using o2 by auto
  ultimately show ?thesis by simp
qed



lemma placement_ok_updateI:
  assumes "g < length gs"
    and "distinct (otherGroups gs g @ grp) \<and> set (otherGroups gs g @ grp) \<subseteq> set placed"
  shows "placement_ok (gs[g := grp]) placed"
  using placement_ok_update [OF assms(1), of grp placed] assms(2) by (rule iffD2)

lemma ugRankLoop_placement_ok:
  assumes "ugRankLoop env username ranking st = Inr after"
    and "placement_ok (st_groups st) (st_placedUsers st)"
    and "username \<notin> set (st_placedUsers st)"
    and "\<forall>g \<in> set ranking. g < length (st_groups st)"
  shows "placement_ok (st_groups after) (st_placedUsers after) \<and>
         length (st_groups after) = length (st_groups st)"
  using assms
proof (induction ranking arbitrary: st)
  case Nil
  then show ?case by simp
next
  case (Cons groupID rest)
  from Cons.prems(4) have g: "groupID < length (st_groups st)"
    and rest: "\<forall>g \<in> set rest. g < length (st_groups st)"
    by simp_all
  from Cons.prems(1) show ?case
  proof (cases rule: ugRankLoop_Cons)
    case conflict
    from Cons.IH [OF conflict(2) Cons.prems(2,3) rest] show ?thesis .
  next
    case (joined guRanked user)
    have "placement_ok ((st_groups st)[groupID := guRanked]) (st_placedUsers st @ [username])"
      using g placement_ok_joined [OF Cons.prems(2) g Cons.prems(3) joined(1)]
      by (rule placement_ok_updateI)
    then show ?thesis
      unfolding joined(3) by simp
  next
    case (selfEvicted guRanked user evicted placed)
    let ?st = "st\<lparr>st_groups := (st_groups st)[groupID := evicted], st_placedUsers := placed\<rparr>"
    note j = placement_ok_joined [OF Cons.prems(2) g Cons.prems(3) selfEvicted(1)]
    have "placement_ok ((st_groups st)[groupID := evicted]) placed"
      using g evictLoop_keeps_partition [OF selfEvicted(3) conjunct1 [OF j] conjunct2 [OF j]]
      by (rule placement_ok_updateI)
    then have ok: "placement_ok (st_groups ?st) (st_placedUsers ?st)"
      by simp
    have un: "username \<notin> set (st_placedUsers ?st)"
      using evictLoop_continue_unplaced [OF selfEvicted(3)] by simp
    have r: "\<forall>g \<in> set rest. g < length (st_groups ?st)"
      using rest by simp
    from Cons.IH [OF selfEvicted(4) ok un r] show ?thesis by simp
  next
    case (evicted guRanked user evicted placed left)
    note j = placement_ok_joined [OF Cons.prems(2) g Cons.prems(3) evicted(1)]
    have "placement_ok ((st_groups st)[groupID := evicted]) placed"
      using g evictLoop_keeps_partition [OF evicted(3) conjunct1 [OF j] conjunct2 [OF j]]
      by (rule placement_ok_updateI)
    then show ?thesis
      unfolding evicted(5) by simp
  qed
qed


lemma getUGRanking_scores_ids:
  "getUGRanking_scores prefs rest newMember i = Inr scores \<Longrightarrow>
   map ug_groupID scores = [i ..< i + length rest]"
proof (induction rest arbitrary: i scores)
  case Nil
  then show ?case by simp
next
  case (Cons grp rest)
  from Cons.prems obtain score scores' where
    s: "getUGRanking_scores prefs rest newMember (Suc i) = Inr scores'"
      "scores = \<lparr>ug_groupID = i, ug_score = score\<rparr> # scores'"
    by (auto split: sum.splits)
  from Cons.IH [OF s(1)] have "map ug_groupID scores = i # [Suc i ..< Suc i + length rest]"
    using s(2) by simp
  also have "\<dots> = [i ..< i + length (grp # rest)]"
    using upt_conv_Cons [of i "i + length (grp # rest)"] by (simp del: upt_Suc)
  finally show ?case .
qed

lemma getUGRanking_range:
  assumes "getUGRanking coin prefs gs newMember = Inr ranking"
  shows "\<forall>g \<in> set ranking. g < length gs"
proof -
  from assms obtain scores where sc: "getUGRanking_scores prefs gs newMember 0 = Inr scores"
    and r: "ranking = map ug_groupID (sortBy_compare (ug_compare coin gs) scores)"
    by (auto simp: getUGRanking_def split: sum.splits)
  have "mset ranking = mset (map ug_groupID scores)"
    unfolding r by (simp add: mset_sortBy_compare)
  then have "set ranking = set (map ug_groupID scores)"
    by (rule mset_eq_setD)
  with getUGRanking_scores_ids [OF sc] show ?thesis by simp
qed

lemma phaseA_step_result:
  assumes "phaseA_step env (i, currentLoopAmounts, st) = Inr (i', loops', st')"
  shows "st' = st \<or>
         (\<exists>ugRanked after.
            env_userOrder env ! i \<notin> set (st_placedUsers st) \<and>
            getUGRanking (env_sample env currentLoopAmounts i) (env_preferences env)
              (st_groups st) (env_userOrder env ! i) = Inr ugRanked \<and>
            ugRankLoop env (env_userOrder env ! i) ugRanked st = Inr after \<and>
            st_groups st' = st_groups after \<and> st_placedUsers st' = st_placedUsers after)"
proof (cases "env_userOrder env ! i \<in> set (st_placedUsers st)")
  case True
  with assms show ?thesis
    by (simp add: phaseA_step_def)
next
  case False
  with assms obtain ugRanked where r: "getUGRanking (env_sample env currentLoopAmounts i)
      (env_preferences env) (st_groups st) (env_userOrder env ! i) = Inr ugRanked"
    by (cases "getUGRanking (env_sample env currentLoopAmounts i)
      (env_preferences env) (st_groups st) (env_userOrder env ! i)") (simp_all add: phaseA_step_def)
  with assms False obtain after where a: "ugRankLoop env (env_userOrder env ! i) ugRanked st = Inr after"
    by (cases "ugRankLoop env (env_userOrder env ! i) ugRanked st") (simp_all add: phaseA_step_def)
  from assms False r a have "st' = after \<or> st' = after\<lparr>st_hasUpdatedThisLoop := False\<rparr>"
    by (simp add: phaseA_step_def split: if_splits)
  then have "st_groups st' = st_groups after \<and> st_placedUsers st' = st_placedUsers after"
    by auto
  with False r a show ?thesis by blast
qed

lemma phaseA_step_placement_ok:
  assumes "phaseA_step env (i, currentLoopAmounts, st) = Inr (i', loops', st')"
    and "placement_ok (st_groups st) (st_placedUsers st)"
  shows "placement_ok (st_groups st') (st_placedUsers st')"
  using phaseA_step_result [OF assms(1)]
proof
  assume "st' = st"
  with assms(2) show ?thesis by simp
next
  assume "\<exists>ugRanked after.
            env_userOrder env ! i \<notin> set (st_placedUsers st) \<and>
            getUGRanking (env_sample env currentLoopAmounts i) (env_preferences env)
              (st_groups st) (env_userOrder env ! i) = Inr ugRanked \<and>
            ugRankLoop env (env_userOrder env ! i) ugRanked st = Inr after \<and>
            st_groups st' = st_groups after \<and> st_placedUsers st' = st_placedUsers after"
  then obtain ugRanked after where
    w: "env_userOrder env ! i \<notin> set (st_placedUsers st)"
      "getUGRanking (env_sample env currentLoopAmounts i) (env_preferences env)
              (st_groups st) (env_userOrder env ! i) = Inr ugRanked"
      "ugRankLoop env (env_userOrder env ! i) ugRanked st = Inr after"
      "st_groups st' = st_groups after" "st_placedUsers st' = st_placedUsers after"
    by blast
  from ugRankLoop_placement_ok [OF w(3) assms(2) w(1) getUGRanking_range [OF w(2)]] w(4,5)
  show ?thesis by simp
qed

lemma phaseA_loop_placement_ok:
  "phaseA_loop env s = Inr (i', loops', st') \<Longrightarrow>
   placement_ok (st_groups (snd (snd s))) (st_placedUsers (snd (snd s))) \<Longrightarrow>
   placement_ok (st_groups st') (st_placedUsers st')"
proof (induction env s rule: phaseA_loop.induct)
  case (1 env i currentLoopAmounts st)
  show ?case
  proof (cases "i < length (env_userOrder env)")
    case False
    with "1.prems" show ?thesis by simp
  next
    case True
    with "1.prems"(1) obtain "next" where n: "phaseA_step env (i, currentLoopAmounts, st) = Inr next"
      "phaseA_loop env next = Inr (i', loops', st')"
      by (cases "phaseA_step env (i, currentLoopAmounts, st)") simp_all
    obtain j l t where nx: "next = (j, l, t)" by (cases "next") auto
    from phaseA_step_placement_ok [OF n(1) [unfolded nx]] "1.prems"(2)
    have "placement_ok (st_groups t) (st_placedUsers t)" by simp
    with "1.IH" [OF True n(1) n(2)] nx show ?thesis by simp
  qed
qed


lemma push_distinct:
  assumes "distinct (concat gs)" and "username \<notin> set (concat gs)"
  shows "distinct (concat (gs[g := gs ! g @ [username]])) \<and>
         set (concat (gs[g := gs ! g @ [username]])) \<subseteq> insert username (set (concat gs))"
proof (cases "g < length gs")
  case False
  then have "gs[g := gs ! g @ [username]] = gs" by (simp add: list_update_beyond)
  with assms show ?thesis by auto
next
  case True
  have new: "concat (gs[g := gs ! g @ [username]]) =
      concat (take g gs) @ (gs ! g @ [username]) @ concat (drop (Suc g) gs)"
    using True by (rule concat_list_update)
  have "concat (gs[g := gs ! g]) = concat (take g gs) @ gs ! g @ concat (drop (Suc g) gs)"
    using True by (rule concat_list_update)
  then have old: "concat gs = concat (take g gs) @ gs ! g @ concat (drop (Suc g) gs)"
    by simp
  define a b c where "a = concat (take g gs)" and "b = gs ! g" and "c = concat (drop (Suc g) gs)"
  from assms old have "distinct (a @ b @ c)" "username \<notin> set (a @ b @ c)"
    by (simp_all add: a_def b_def c_def)
  then have "distinct (a @ (b @ [username]) @ c) \<and>
             set (a @ (b @ [username]) @ c) \<subseteq> insert username (set (a @ b @ c))"
    by auto
  then show ?thesis
    unfolding new old a_def b_def c_def .
qed

lemma placeUnplaced_distinct:
  assumes "placeUnplaced env placed gs username = Inr gs'"
    and "distinct (concat gs)"
    and "username \<in> set placed \<or> username \<notin> set (concat gs)"
  shows "distinct (concat gs') \<and> set (concat gs') \<subseteq> insert username (set (concat gs))"
proof (cases "username \<in> set placed")
  case True
  with assms(1) have "gs' = gs" by (simp add: placeUnplaced_def)
  with assms(2) show ?thesis by auto
next
  case False
  with assms(3) have fresh: "username \<notin> set (concat gs)" by simp
  from assms(1) False obtain sortedIDs where s: "sizeSortedGroups env gs username = Inr sortedIDs"
    by (cases "sizeSortedGroups env gs username") (simp_all add: placeUnplaced_def)
  let ?scan = "fallbackScan env gs sortedIDs username [0 ..< length sortedIDs * 3]"
  from assms(1) False s obtain found where f: "?scan = Inr found"
    by (cases ?scan) (simp_all add: placeUnplaced_def)
  show ?thesis
  proof (cases found)
    case None
    with assms(1) False s f have "gs' = gs" by (simp add: placeUnplaced_def)
    with assms(2) show ?thesis by auto
  next
    case (Some j)
    with assms(1) False s f
    have "gs' = gs[sortedIDs ! (j mod length sortedIDs) :=
                   gs ! (sortedIDs ! (j mod length sortedIDs)) @ [username]]"
      by (simp add: placeUnplaced_def Let_def)
    with push_distinct [OF assms(2) fresh] show ?thesis by simp
  qed
qed

lemma allUsernamesLoop_distinct:
  assumes "allUsernamesLoop env placed gs names = Inr gs'"
    and "distinct names" and "distinct (concat gs)"
    and "\<forall>name \<in> set names. name \<in> set placed \<or> name \<notin> set (concat gs)"
  shows "distinct (concat gs')"
  using assms
proof (induction names arbitrary: gs)
  case Nil
  then show ?case by simp
next
  case (Cons username rest)
  from Cons.prems(1) obtain mid where m: "placeUnplaced env placed gs username = Inr mid"
    "allUsernamesLoop env placed mid rest = Inr gs'"
    by (cases "placeUnplaced env placed gs username") simp_all
  from Cons.prems(4) have "username \<in> set placed \<or> username \<notin> set (concat gs)"
    by simp
  from placeUnplaced_distinct [OF m(1) Cons.prems(3) this]
  have d: "distinct (concat mid)" and sub: "set (concat mid) \<subseteq> insert username (set (concat gs))"
    by blast+
  from Cons.prems(2) have dr: "distinct rest" and nr: "username \<notin> set rest"
    by simp_all
  have "\<forall>name \<in> set rest. name \<in> set placed \<or> name \<notin> set (concat mid)"
  proof
    fix name
    assume n: "name \<in> set rest"
    with Cons.prems(4) have "name \<in> set placed \<or> name \<notin> set (concat gs)"
      by simp
    moreover from n nr have "name \<noteq> username" by blast
    ultimately show "name \<in> set placed \<or> name \<notin> set (concat mid)"
      using sub by blast
  qed
  from Cons.IH [OF m(2) dr d this] show ?case .
qed

lemma distinct_concat_disjoint:
  "distinct (concat gs) \<Longrightarrow> i < j \<Longrightarrow> j < length gs \<Longrightarrow> set (gs ! i) \<inter> set (gs ! j) = {}"
proof (induction gs arbitrary: i j)
  case Nil
  then show ?case by simp
next
  case (Cons grp gs)
  from Cons.prems(2) obtain j' where j: "j = Suc j'" by (cases j) auto
  with Cons.prems(3) have j': "j' < length gs" by simp
  show ?case
  proof (cases i)
    case 0
    from j' have "gs ! j' \<in> set gs" by simp
    then have "set (gs ! j') \<subseteq> set (concat gs)" by auto
    with Cons.prems(1) 0 j show ?thesis by auto
  next
    case (Suc i')
    with Cons.prems j Cons.IH [of i' j'] show ?thesis by simp
  qed
qed

text \<open>
  C4. In every result of a run over a user-detail object (whose keys are distinct, as
  the keys of an object are), no identity occurs twice in the concatenation of the
  groups: every group is free of repetitions, and two different groups share no
  identity.
\<close>

theorem run_places_each_identity_once:
  assumes "distinct (map fst (env_users env))" and "run env = Inr result"
  shows "distinct (concat (result_groups result)) \<and>
         (\<forall>grp \<in> set (result_groups result). distinct grp) \<and>
         (\<forall>i j. i < j \<and> j < length (result_groups result) \<longrightarrow>
            set (result_groups result ! i) \<inter> set (result_groups result ! j) = {})"
proof -
  let ?start = "\<lparr>st_groups = replicate (length (env_groupSizes env)) [],
                  st_placedUsers = [], st_hasUpdatedThisLoop = False\<rparr>"
  from assms(2) obtain i loops st where a: "phaseA_loop env (0, 0, ?start) = Inr (i, loops, st)"
    by (cases "phaseA_loop env (0, 0, ?start)") (auto simp: run_def)
  from assms(2) a obtain gs where
    b: "allUsernamesLoop env (st_placedUsers st) (st_groups st) (map fst (env_users env)) = Inr gs"
    and r: "result_groups result = gs"
    by (cases "allUsernamesLoop env (st_placedUsers st) (st_groups st) (map fst (env_users env))")
       (auto simp: run_def)
  have "concat (replicate n ([] :: Username list)) = []" for n
    by (induction n) simp_all
  then have "placement_ok (st_groups ?start) (st_placedUsers ?start)"
    by (simp add: placement_ok_def)
  with phaseA_loop_placement_ok [OF a] have ok: "placement_ok (st_groups st) (st_placedUsers st)"
    by simp
  then have d0: "distinct (concat (st_groups st))"
    and sub: "set (concat (st_groups st)) \<subseteq> set (st_placedUsers st)"
    by (simp_all add: placement_ok_def)
  from sub have "\<forall>name \<in> set (map fst (env_users env)).
      name \<in> set (st_placedUsers st) \<or> name \<notin> set (concat (st_groups st))"
    by blast
  from allUsernamesLoop_distinct [OF b assms(1) d0 this] have d: "distinct (concat gs)" .
  then have "\<forall>grp \<in> set gs. distinct grp"
    by (simp add: distinct_concat_iff)
  moreover from d have "\<forall>i j. i < j \<and> j < length gs \<longrightarrow> set (gs ! i) \<inter> set (gs ! j) = {}"
    using distinct_concat_disjoint by blast
  ultimately show ?thesis using d r by simp
qed

text \<open>
  The theorem at the run of two boys for one group of size 2, in which \<^verbatim>\<open>a\<close> is evicted in
  the first loop and placed again by the second.
\<close>

theorem run_places_each_identity_once_witness:
  "distinct (map fst (env_users pairEnv)) \<and> run pairEnv = Inr pairResult \<and>
   distinct (concat (result_groups pairResult))"
proof -
  have h1: "distinct (map fst (env_users pairEnv))"
    by code_simp
  have h2: "run pairEnv = Inr pairResult"
    by code_simp
  from run_places_each_identity_once [OF h1 h2]
  have "distinct (concat (result_groups pairResult))"
    by (rule conjunct1)
  with h1 h2 show ?thesis by blast
qed

section \<open>A run of well-formed inputs returns\<close>

lemma getUGRanking_scores_total:
  assumes "map_of prefs newMember = Some friends"
  shows "\<exists>scores. getUGRanking_scores prefs gs newMember i = Inr scores"
proof (induction gs arbitrary: i)
  case Nil
  then show ?case by simp
next
  case (Cons grp gs)
  from Cons [of "Suc i"] obtain scores where
    "getUGRanking_scores prefs gs newMember (Suc i) = Inr scores" by blast
  moreover have "\<exists>score. getUGScore prefs grp newMember = Inr score"
    using assms by (simp add: getUGScore_def getUGScore_loop_Some)
  ultimately show ?case by auto
qed

lemma getUGRanking_total:
  assumes "map_of prefs newMember = Some friends"
  shows "\<exists>ranking. getUGRanking coin prefs gs newMember = Inr ranking"
  using getUGRanking_scores_total [OF assms, of gs 0] by (auto simp: getUGRanking_def)

lemma hasMaximum_loop_total:
  "set grp \<subseteq> dom (map_of users) \<Longrightarrow> \<exists>amounts. hasMaximum_loop grp male users acc = Inr amounts"
proof (induction grp arbitrary: acc)
  case Nil
  then show ?case by (cases acc) simp
next
  case (Cons member grp)
  from Cons.prems obtain detail where d: "map_of users member = Some detail"
    by auto
  from Cons.prems have "set grp \<subseteq> dom (map_of users)" by simp
  from Cons.IH [OF this] d show ?case
    by (cases acc) simp
qed

lemma hasMaximum_total:
  assumes "set grp \<subseteq> dom (map_of users)"
  shows "\<exists>full. hasMaximum grp male maxAmount maxAmountSame oneGender users = Inr full"
proof -
  from hasMaximum_loop_total [OF assms, of male "(0, 0)"] obtain amounts
    where "hasMaximum_loop grp male users (0, 0) = Inr amounts" by blast
  then show ?thesis
    by (cases amounts) (simp add: hasMaximum_def)
qed

lemma set_splice_subset: "set (take k xs @ drop (Suc k) xs) \<subseteq> set xs"
proof -
  have "set (take k xs) \<subseteq> set xs" by (rule set_take_subset)
  moreover have "set (drop (Suc k) xs) \<subseteq> set xs" by (rule set_drop_subset)
  ultimately show ?thesis by simp
qed

lemma evictLoop_total:
  assumes "n \<le> length guRanked" and "set guRanked \<subseteq> dom (map_of users)"
  shows "\<exists>evicted stillPlaced left.
           evictLoop users male username n guRanked placed removed = Inr (evicted, stillPlaced, left) \<and>
           set evicted \<subseteq> set guRanked"
  using assms
proof (induction n arbitrary: guRanked placed removed)
  case 0
  then show ?case by simp
next
  case (Suc k)
  from Suc.prems(1) have k: "k < length guRanked" by simp
  then have "guRanked ! k \<in> set guRanked" by simp
  with Suc.prems(2) obtain detail where d: "map_of users (guRanked ! k) = Some detail"
    by blast
  show ?case
  proof (cases "isMale detail = male")
    case False
    from k have "k \<le> length guRanked" by simp
    from Suc.IH [OF this Suc.prems(2), of placed removed] False k d show ?thesis
      by simp
  next
    case True
    let ?removedUser = "guRanked ! k"
    let ?spliced = "take k guRanked @ drop (Suc k) guRanked"
    let ?removed = "removed + getMultiplier ?removedUser"
    let ?placed = "filter (\<lambda>placedUser. placedUser \<noteq> ?removedUser) placed"
    have unfold: "evictLoop users male username (Suc k) guRanked placed removed =
        (if getMultiplier username \<le> ?removed
         then Inr (?spliced, ?placed,
                   if username = ?removedUser then ContinueRankLoop else BreakRankLoop)
         else evictLoop users male username k ?spliced ?placed ?removed)"
      using k d True by (simp add: Let_def)
    have sub: "set ?spliced \<subseteq> set guRanked" by (rule set_splice_subset)
    show ?thesis
    proof (cases "getMultiplier username \<le> ?removed")
      case True
      with sub show ?thesis unfolding unfold by simp
    next
      case False
      have len: "k \<le> length ?spliced" using k by simp
      from sub Suc.prems(2) have known: "set ?spliced \<subseteq> dom (map_of users)" by blast
      from Suc.IH [OF len known, of ?placed ?removed] obtain evicted stillPlaced left where
        "evictLoop users male username k ?spliced ?placed ?removed = Inr (evicted, stillPlaced, left)"
        "set evicted \<subseteq> set ?spliced"
        by blast
      with False sub show ?thesis unfolding unfold by auto
    qed
  qed
qed


lemma set_concat_update:
  "set (concat (gs[g := grp])) \<subseteq> set (concat gs) \<union> set grp"
proof (cases "g < length gs")
  case False
  then show ?thesis by (simp add: list_update_beyond)
next
  case True
  have new: "concat (gs[g := grp]) = concat (take g gs) @ grp @ concat (drop (Suc g) gs)"
    using True by (rule concat_list_update)
  have "concat (gs[g := gs ! g]) = concat (take g gs) @ gs ! g @ concat (drop (Suc g) gs)"
    using True by (rule concat_list_update)
  then have old: "concat gs = concat (take g gs) @ gs ! g @ concat (drop (Suc g) gs)"
    by simp
  define a b where "a = concat (take g gs)" and "b = concat (drop (Suc g) gs)"
  have "set (a @ grp @ b) \<subseteq> set (a @ gs ! g @ b) \<union> set grp"
    by auto
  then show ?thesis
    unfolding new a_def b_def using old by simp
qed

lemma getGURanking_returns:
  assumes "set grp \<subseteq> dom (map_of prefs)"
  shows "\<exists>ranking. getGURanking prefs grp = Inr ranking \<and> set ranking = set grp"
proof -
  from getGURanking_scores_total [OF assms, of grp 0] obtain scores
    where "getGURanking_scores prefs grp grp 0 = Inr scores"
    by blast
  then obtain ranking where r: "getGURanking prefs grp = Inr ranking"
    by (simp add: getGURanking_def)
  from getGURanking_mset [OF r] have "set ranking = set grp"
    by (rule mset_eq_setD)
  with r show ?thesis by blast
qed

lemma ugRankLoop_total:
  assumes "set (concat (st_groups st)) \<subseteq> knownUsers env"
    and "username \<in> knownUsers env"
    and "\<forall>g \<in> set ranking. g < length (st_groups st)"
  shows "\<exists>after. ugRankLoop env username ranking st = Inr after \<and>
           set (concat (st_groups after)) \<subseteq> knownUsers env \<and>
           length (st_groups after) = length (st_groups st)"
  using assms
proof (induction ranking arbitrary: st)
  case Nil
  then show ?case by simp
next
  case (Cons groupID rest)
  let ?gs = "st_groups st"
  from Cons.prems(3) have g: "groupID < length ?gs"
    and rest: "\<forall>g \<in> set rest. g < length ?gs"
    by simp_all
  show ?case
  proof (cases "canTryJoiningGroup (env_antiPreferences env) (?gs ! groupID) username")
    case False
    from Cons.IH [OF Cons.prems(1,2) rest] False show ?thesis by simp
  next
    case can: True
    from g have "?gs ! groupID \<in> set ?gs" by simp
    then have "set (?gs ! groupID) \<subseteq> set (concat ?gs)" by auto
    with Cons.prems(1,2) have new: "set (groupWithNew (?gs ! groupID) username) \<subseteq> knownUsers env"
      by (auto simp: groupWithNew_def)
    then have "set (groupWithNew (?gs ! groupID) username) \<subseteq> dom (map_of (env_preferences env))"
      by (auto simp: knownUsers_def)
    from getGURanking_returns [OF this] obtain guRanked where
      r: "getGURanking (env_preferences env) (groupWithNew (?gs ! groupID) username) = Inr guRanked"
      and rs: "set guRanked = set (groupWithNew (?gs ! groupID) username)"
      by blast
    from rs new have gk: "set guRanked \<subseteq> knownUsers env" by simp
    then have gu: "set guRanked \<subseteq> dom (map_of (env_users env))"
      by (auto simp: knownUsers_def)
    from Cons.prems(2) obtain user where u: "map_of (env_users env) username = Some user"
      by (auto simp: knownUsers_def)
    from hasMaximum_total [OF gu] obtain full where
      m: "hasMaximum guRanked (isMale user) (sizeAt (env_groupSizes env) groupID)
            (floorHalf (sizeAt (env_groupSizes env) groupID))
            (env_oneGenderGroups env) (env_users env) = Inr full"
      by blast
    show ?thesis
    proof (cases full)
      case False
      have "set (concat (?gs[groupID := guRanked])) \<subseteq> knownUsers env"
        using set_concat_update [of ?gs groupID guRanked] Cons.prems(1) gk by blast
      with can r u m False show ?thesis by simp
    next
      case True
      from evictLoop_total [OF le_refl gu, of "isMale user" username "st_placedUsers st @ [username]" 0]
      obtain evicted placed left where
        e: "evictLoop (env_users env) (isMale user) username (length guRanked) guRanked
              (st_placedUsers st @ [username]) 0 = Inr (evicted, placed, left)"
        and es: "set evicted \<subseteq> set guRanked"
        by blast
      have known: "set (concat (?gs[groupID := evicted])) \<subseteq> knownUsers env"
        using set_concat_update [of ?gs groupID evicted] Cons.prems(1) gk es by blast
      show ?thesis
      proof (cases "left = ContinueRankLoop")
        case False
        with can r u m True e known show ?thesis
          by (cases left) simp_all
      next
        case cont: True
        let ?st = "st\<lparr>st_groups := ?gs[groupID := evicted], st_placedUsers := placed\<rparr>"
        have k2: "set (concat (st_groups ?st)) \<subseteq> knownUsers env"
          using known by simp
        have r2: "\<forall>g \<in> set rest. g < length (st_groups ?st)"
          using rest by simp
        from Cons.IH [OF k2 Cons.prems(2) r2] obtain after where
          a: "ugRankLoop env username rest ?st = Inr after"
            "set (concat (st_groups after)) \<subseteq> knownUsers env"
            "length (st_groups after) = length (st_groups ?st)"
          by blast
        have "ugRankLoop env username (groupID # rest) st = ugRankLoop env username rest ?st"
          using can r u m True e cont by simp
        with a show ?thesis by simp
      qed
    qed
  qed
qed


lemma phaseA_step_total:
  assumes "i < length (env_userOrder env)"
    and "set (env_userOrder env) \<subseteq> knownUsers env"
    and "set (concat (st_groups st)) \<subseteq> knownUsers env"
  shows "\<exists>i' loops' st'. phaseA_step env (i, currentLoopAmounts, st) = Inr (i', loops', st') \<and>
           set (concat (st_groups st')) \<subseteq> knownUsers env \<and>
           length (st_groups st') = length (st_groups st)"
proof (cases "env_userOrder env ! i \<in> set (st_placedUsers st)")
  case True
  with assms(3) show ?thesis by (simp add: phaseA_step_def)
next
  case False
  let ?username = "env_userOrder env ! i"
  from assms(1,2) have k: "?username \<in> knownUsers env"
    using nth_mem by blast
  then obtain friends where "map_of (env_preferences env) ?username = Some friends"
    by (auto simp: knownUsers_def)
  from getUGRanking_total [OF this] obtain ugRanked where
    r: "getUGRanking (env_sample env currentLoopAmounts i) (env_preferences env)
          (st_groups st) ?username = Inr ugRanked"
    by blast
  from ugRankLoop_total [OF assms(3) k getUGRanking_range [OF r]] obtain after where
    a: "ugRankLoop env ?username ugRanked st = Inr after"
      "set (concat (st_groups after)) \<subseteq> knownUsers env"
      "length (st_groups after) = length (st_groups st)"
    by blast
  with False r show ?thesis
    by (simp add: phaseA_step_def)
qed

lemma phaseA_loop_total:
  "set (env_userOrder env) \<subseteq> knownUsers env \<Longrightarrow>
   set (concat (st_groups (snd (snd s)))) \<subseteq> knownUsers env \<Longrightarrow>
   \<exists>i' loops' st'. phaseA_loop env s = Inr (i', loops', st') \<and>
      set (concat (st_groups st')) \<subseteq> knownUsers env \<and>
      length (st_groups st') = length (st_groups (snd (snd s)))"
proof (induction env s rule: phaseA_loop.induct)
  case (1 env i currentLoopAmounts st)
  show ?case
  proof (cases "i < length (env_userOrder env)")
    case False
    with "1.prems" show ?thesis by simp
  next
    case True
    from "1.prems" have k: "set (concat (st_groups st)) \<subseteq> knownUsers env" by simp
    from phaseA_step_total [OF True "1.prems"(1) k, of currentLoopAmounts]
    obtain j l t where n: "phaseA_step env (i, currentLoopAmounts, st) = Inr (j, l, t)"
      "set (concat (st_groups t)) \<subseteq> knownUsers env"
      "length (st_groups t) = length (st_groups st)"
      by blast
    from "1.IH" [OF True n(1) "1.prems"(1)] n(2)
    obtain i' loops' st' where "phaseA_loop env (j, l, t) = Inr (i', loops', st')"
      "set (concat (st_groups st')) \<subseteq> knownUsers env"
      "length (st_groups st') = length (st_groups t)"
      by auto
    with True n show ?thesis by simp
  qed
qed


lemma collect_Inr: "collect (map (\<lambda>x. Inr (f x)) xs) = Inr (map f xs)"
  by (induction xs) simp_all

lemma lodash_sortBy_mset: "mset (lodash_sortBy collection iteratees) = mset collection"
proof -
  define entries where "entries =
     map (\<lambda>(v, i). (v, map (\<lambda>iteratee. iteratee v) iteratees, i))
       (zip collection [0 ..< length collection])"
  have fsts: "map fst entries = collection"
    by (simp add: entries_def case_prod_unfold comp_def)
  have "mset (map fst (sortBy_compare compareMultiple entries)) = mset (map fst entries)"
    by (simp only: mset_map mset_sortBy_compare)
  with fsts have "mset (map fst (sortBy_compare compareMultiple entries)) = mset collection"
    by simp
  then show ?thesis
    by (simp only: lodash_sortBy_def entries_def)
qed

lemma sizeSortedGroups_total:
  "\<exists>sortedIDs. sizeSortedGroups env gs username = Inr sortedIDs \<and>
      set sortedIDs = {0 ..< length gs}"
proof -
  have "map (friendsInGroup env gs username) [0 ..< length gs] =
        map (\<lambda>g. Inr (Num 0)) [0 ..< length gs]"
    by (simp add: friendsInGroup_zero)
  then have "collect (map (friendsInGroup env gs username) [0 ..< length gs]) =
        Inr (map (\<lambda>g. Num 0) [0 ..< length gs])"
    by (simp only: collect_Inr)
  then obtain sortedIDs scores where
    s: "sizeSortedGroups env gs username = Inr sortedIDs"
       "sortedIDs = lodash_sortBy [0 ..< length gs] [remainingSpots env gs, \<lambda>g. scores ! g]"
    by (simp add: sizeSortedGroups_def)
  from s(2) have "mset sortedIDs = mset [0 ..< length gs]"
    by (simp only: lodash_sortBy_mset)
  then have "set sortedIDs = set [0 ..< length gs]"
    by (rule mset_eq_setD)
  with s(1) show ?thesis by simp
qed

lemma fallbackScan_total:
  assumes "map_of (env_users env) username = Some user"
    and "set (concat gs) \<subseteq> dom (map_of (env_users env))"
    and "set sortedIDs \<subseteq> {0 ..< length gs}"
    and "sortedIDs \<noteq> [] \<or> js = []"
  shows "\<exists>found. fallbackScan env gs sortedIDs username js = Inr found"
  using assms(4)
proof (induction js)
  case Nil
  then show ?case by simp
next
  case (Cons j js)
  then have ne: "sortedIDs \<noteq> []" by simp
  then have "j mod length sortedIDs < length sortedIDs" by simp
  then have "sortedIDs ! (j mod length sortedIDs) \<in> set sortedIDs" by (rule nth_mem)
  with assms(3) have "sortedIDs ! (j mod length sortedIDs) < length gs" by auto
  then have "gs ! (sortedIDs ! (j mod length sortedIDs)) \<in> set gs" by (rule nth_mem)
  then have "set (gs ! (sortedIDs ! (j mod length sortedIDs))) \<subseteq> set (concat gs)" by auto
  with assms(2) have known: "set (gs ! (sortedIDs ! (j mod length sortedIDs)))
      \<subseteq> dom (map_of (env_users env))"
    by blast
  from Cons.IH ne obtain later where l: "fallbackScan env gs sortedIDs username js = Inr later"
    by blast
  let ?gender = "if j < length sortedIDs then floorHalf (sizeAt (env_groupSizes env) j) else PosInf"
  let ?size = "if j < length sortedIDs * 2 then sizeAt (env_groupSizes env) j else PosInf"
  from hasMaximum_total [OF known] obtain full where
    "hasMaximum (gs ! (sortedIDs ! (j mod length sortedIDs))) (isMale user) ?size ?gender
       (env_oneGenderGroups env) (env_users env) = Inr full"
    by blast
  with l assms(1) show ?case
    by (cases full) (simp_all add: Let_def)
qed

lemma placeUnplaced_total:
  assumes "username \<in> dom (map_of (env_users env))"
    and "set (concat gs) \<subseteq> dom (map_of (env_users env))"
  shows "\<exists>gs'. placeUnplaced env placed gs username = Inr gs' \<and>
           set (concat gs') \<subseteq> dom (map_of (env_users env))"
proof (cases "username \<in> set placed")
  case True
  with assms(2) show ?thesis by (simp add: placeUnplaced_def)
next
  case False
  from assms(1) obtain user where u: "map_of (env_users env) username = Some user"
    by blast
  from sizeSortedGroups_total [of env gs username] obtain sortedIDs where
    s: "sizeSortedGroups env gs username = Inr sortedIDs" "set sortedIDs = {0 ..< length gs}"
    by blast
  have "sortedIDs \<noteq> [] \<or> [0 ..< length sortedIDs * 3] = []"
    by simp
  from fallbackScan_total [OF u assms(2) _ this] s(2) obtain found where
    f: "fallbackScan env gs sortedIDs username [0 ..< length sortedIDs * 3] = Inr found"
    by blast
  show ?thesis
  proof (cases found)
    case None
    with False s f assms(2) show ?thesis by (simp add: placeUnplaced_def)
  next
    case (Some j)
    let ?g = "sortedIDs ! (j mod length sortedIDs)"
    have "set (concat (gs[?g := gs ! ?g @ [username]])) \<subseteq> dom (map_of (env_users env))"
    proof (cases "?g < length gs")
      case True
      then have "gs ! ?g \<in> set gs" by (rule nth_mem)
      then have "set (gs ! ?g) \<subseteq> set (concat gs)" by auto
      with assms have "set (gs ! ?g @ [username]) \<subseteq> dom (map_of (env_users env))"
        by auto
      with assms(2) set_concat_update [of gs ?g "gs ! ?g @ [username]"] show ?thesis
        by blast
    next
      case False
      then have "gs[?g := gs ! ?g @ [username]] = gs" by (simp add: list_update_beyond)
      with assms(2) show ?thesis by simp
    qed
    with False s f Some show ?thesis by (simp add: placeUnplaced_def Let_def)
  qed
qed

lemma allUsernamesLoop_total:
  assumes "set names \<subseteq> dom (map_of (env_users env))"
    and "set (concat gs) \<subseteq> dom (map_of (env_users env))"
  shows "\<exists>gs'. allUsernamesLoop env placed gs names = Inr gs'"
  using assms
proof (induction names arbitrary: gs)
  case Nil
  then show ?case by simp
next
  case (Cons username rest)
  from Cons.prems(1) have u: "username \<in> dom (map_of (env_users env))"
    and r: "set rest \<subseteq> dom (map_of (env_users env))"
    by simp_all
  from placeUnplaced_total [OF u Cons.prems(2), of placed] obtain mid where
    m: "placeUnplaced env placed gs username = Inr mid"
       "set (concat mid) \<subseteq> dom (map_of (env_users env))"
    by blast
  from Cons.IH [OF r m(2)] m(1) show ?case by simp
qed

text \<open>
  A run returns a result (it throws no \<^verbatim>\<open>TypeError\<close>) when every identity of the shuffled
  order has a preference entry and a detail record, as the keys of the preferences of
  the program have.
\<close>

lemma run_returns:
  assumes "set (env_userOrder env) \<subseteq> knownUsers env"
  shows "\<exists>result. run env = Inr result"
proof -
  let ?start = "\<lparr>st_groups = replicate (length (env_groupSizes env)) [],
                  st_placedUsers = [], st_hasUpdatedThisLoop = False\<rparr>"
  have "concat (replicate n ([] :: Username list)) = []" for n
    by (induction n) simp_all
  then have "set (concat (st_groups (snd (snd (0 :: nat, 0 :: nat, ?start))))) \<subseteq> knownUsers env"
    by simp
  from phaseA_loop_total [OF assms this] obtain i loops st where
    a: "phaseA_loop env (0, 0, ?start) = Inr (i, loops, st)"
       "set (concat (st_groups st)) \<subseteq> knownUsers env"
    by blast
  from a(2) have k: "set (concat (st_groups st)) \<subseteq> dom (map_of (env_users env))"
    by (auto simp: knownUsers_def)
  have "set (map fst (env_users env)) \<subseteq> dom (map_of (env_users env))"
    by (simp add: dom_map_of_conv_image_fst)
  from allUsernamesLoop_total [OF this k, of "st_placedUsers st"] obtain gs where
    "allUsernamesLoop env (st_placedUsers st) (st_groups st) (map fst (env_users env)) = Inr gs"
    by blast
  with a(1) show ?thesis by (simp add: run_def)
qed

end
